theory Spec2Isabelle
  imports Main "HOL-Library.Word"
begin

section \<open>The AT command engine of Wireless-IO\<close>

text \<open>
  The engine (the \<^verbatim>\<open>USING_AT\<close> part of the slave's AT source file) shares one serial
  line between command/response exchanges and unsolicited result codes (URCs).
  The C functions are embedded as HOL functions on an explicit controller state;
  a function that can store outside a buffer returns a fault or the new state.

  The header \<^verbatim>\<open>at.h\<close> is not among the sources. The two macros the receive path
  reads are parameters of the model, the result constants are the four the code
  names, and the semaphore and clock primitives are modelled from the
  specification. What lies outside the engine is recorded, not run: a write to the
  transport, a call of the debug sink and a call of a URC handler are events of a
  trace. Tasks are not modelled: where a function blocks while the reader task
  runs, the runs of the reader during that time are an argument of the function.
\<close>

subsection \<open>The C library functions the engine calls\<close>

text \<open>
  A C string is the run of bytes before the first NUL of the memory it starts in.
  \<^verbatim>\<open>strstr(h, n)\<close> is non-null iff \<open>n\<close> occurs in \<open>h\<close>; \<^verbatim>\<open>strchr(s, c)\<close> is non-null
  iff \<open>c\<close> occurs in \<open>s\<close> or \<open>c\<close> is NUL (the terminator belongs to the string).
\<close>

definition c_str :: "char list \<Rightarrow> string" where
  "c_str m = takeWhile (\<lambda>c. c \<noteq> CHR 0x00) m"

fun starts_with :: "string \<Rightarrow> string \<Rightarrow> bool" where
  "starts_with [] h = True"
| "starts_with (x # xs) [] = False"
| "starts_with (x # xs) (y # ys) = (x = y \<and> starts_with xs ys)"

fun strstr :: "string \<Rightarrow> string \<Rightarrow> bool" where
  "strstr [] n = (n = [])"
| "strstr (h # hs) n = (starts_with n (h # hs) \<or> strstr hs n)"

definition strchr :: "string \<Rightarrow> char \<Rightarrow> bool" where
  "strchr s c = (c = CHR 0x00 \<or> c \<in> set s)"

subsection \<open>Data model\<close>

datatype at_return = AT_RET_OK | AT_RET_ERROR | AT_RET_TIMEOUT | AT_RET_ABORT

text \<open>A write outside a buffer is undefined behaviour in C; the model stops with a fault.\<close>

datatype fault =
    URC_OOB nat    \<comment> \<open>write to \<^verbatim>\<open>urc_buf\<close> at this index, not below \<^verbatim>\<open>urc_bufsize\<close>\<close>
  | RCV_OOB nat    \<comment> \<open>write to \<^verbatim>\<open>recvbuf\<close> at this index, not below \<^verbatim>\<open>bufsize\<close>\<close>
  | LINES_OOB nat  \<comment> \<open>write to \<^verbatim>\<open>lines\<close> at this index, outside the array\<close>
  | No_return      \<comment> \<open>a polling loop that no other task ever ends\<close>

text \<open>
  A table entry: the handler is a function pointer, kept as an opaque identifier.
  The table is never written, so a pointer to an entry is modelled by the entry.
\<close>

record urc_item =
  prefix :: string
  end_mark :: string
  handler :: nat

text \<open>
  A response description. \<open>recvbuf\<close> is the caller's buffer as it is handed over;
  while the description is armed the live bytes of that buffer are \<open>rcv_mem\<close> below.
\<close>

record at_respond =
  matcher :: string
  recvbuf :: "char list"
  bufsize :: nat
  timeout :: "32 word"

record at_adapter =
  urc_tbl :: "urc_item list"   \<comment> \<open>\<^verbatim>\<open>utc_tbl\<close>, its first \<^verbatim>\<open>urc_tbl_count\<close> entries\<close>
  urc_bufsize :: nat

text \<open>What the engine does to the outside: the calls it makes, in order.\<close>

datatype event =
    Write char                        \<comment> \<open>\<^verbatim>\<open>adap.write\<close> of one byte\<close>
  | Dbg_cmd string                    \<comment> \<open>\<^verbatim>\<open>debug("->\r\n%s\r\n", s)\<close>\<close>
  | Dbg_resp string                   \<comment> \<open>\<^verbatim>\<open>debug("<-\r\n%s\r\n", recvbuf)\<close>\<close>
  | Dbg_urc string                    \<comment> \<open>\<^verbatim>\<open>debug("<=\r\n%s\r\n", urcline)\<close>\<close>
  | Dbg_urc_timeout string            \<comment> \<open>\<^verbatim>\<open>debug("urc recv timeout=>%s\r\n", urc_buf)\<close>\<close>
  | Dbg_unrecognized string           \<comment> \<open>\<^verbatim>\<open>debug("%s\r\n", urc_buf)\<close>\<close>
  | Dbg_overflow string               \<comment> \<open>\<^verbatim>\<open>debug("Receive overflow:%s", rcv_buf)\<close>\<close>
  | Urc_handler nat string nat nat    \<comment> \<open>handler id, then \<^verbatim>\<open>urc_ctx\<close>: text, bufsize, size\<close>
  | Post_completed                    \<comment> \<open>\<^verbatim>\<open>at_sem_post(at->completed)\<close>\<close>

text \<open>
  The controller \<^verbatim>\<open>at_obj_t\<close>, followed by the part of the world it acts on: the two
  buffers it writes through pointers, the bytes the transport will deliver, the
  millisecond clock (the \<open>n\<close>-th reading is \<open>clock n\<close>), the contents of
  uninitialised stack memory, and the trace of outside calls.
  The counters are natural numbers: their declared widths are in the missing header.
\<close>

record at_obj =
  adap :: at_adapter
  send_lock :: bool
  recv_lock :: bool
  completed :: bool
  resp :: "at_respond option"
  urc_item :: "urc_item option"
  resp_timer :: "32 word"
  urc_timer :: "32 word"
  ret :: at_return
  urc_cnt :: nat
  rcv_cnt :: nat
  busy :: bool
  suspend :: bool
  urc_mem :: "char list"
  rcv_mem :: "char list"
  rx :: "char list"
  clock :: "nat \<Rightarrow> 32 word"
  ticks :: nat
  stack_junk :: "nat \<Rightarrow> char"
  trace :: "event list"

text \<open>The macros of \<^verbatim>\<open>at.h\<close> that the receive path reads.\<close>

record macros =
  SPEC_URC_END_MARKS :: string
  MAX_URC_RECV_TIMEOUT :: "32 word"

definition MAX_AT_LOCK_TIME :: "32 word" where
  "MAX_AT_LOCK_TIME = 60 * 1000"

subsection \<open>Semaphores and the clock\<close>

text \<open>
  Modelled from the spec: \<^verbatim>\<open>at_sem_wait\<close>, \<^verbatim>\<open>at_sem_post\<close> and \<^verbatim>\<open>at_sem_new\<close> are
  not among the sources. The three primitives are binary (single slot): a semaphore
  is the flag "a token is available". A bounded wait takes the token if there is
  one; otherwise, no other task running inside a call, the bound elapses and the
  wait fails.
\<close>

definition at_sem_wait :: "bool \<Rightarrow> 32 word \<Rightarrow> bool \<times> bool" where
  "at_sem_wait sem tmo = (if sem then (True, False) else (False, False))"

definition at_sem_post :: "bool \<Rightarrow> bool" where
  "at_sem_post sem = True"

text \<open>
  Modelled from the spec: \<^verbatim>\<open>at_get_ms\<close> and \<^verbatim>\<open>at_istimeout\<close> are not among the
  sources. Each reading of the clock takes the next value of \<open>clock\<close>; a timer has
  expired when the time elapsed since its start exceeds the bound, in unsigned
  32-bit arithmetic.
\<close>

definition at_get_ms :: "at_obj \<Rightarrow> 32 word \<times> at_obj" where
  "at_get_ms at = (clock at (ticks at), at\<lparr>ticks := Suc (ticks at)\<rparr>)"

definition at_istimeout :: "at_obj \<Rightarrow> 32 word \<Rightarrow> 32 word \<Rightarrow> bool \<times> at_obj" where
  "at_istimeout at start tmo =
     (let (now, at1) = at_get_ms at in (now - start > tmo, at1))"

definition emit :: "event \<Rightarrow> at_obj \<Rightarrow> at_obj" where
  "emit e at = at\<lparr>trace := trace at @ [e]\<rparr>"

subsection \<open>Splitting a response into fields\<close>

text \<open>
  \<^verbatim>\<open>at_split_respond_lines\<close>. \<open>rbuf\<close> is the text of \<^verbatim>\<open>recvbuf\<close> before its terminating NUL
  and \<open>lines\<close> the output array, an entry being the offset into the text it points to;
  \<open>None\<close> is a null pointer. The loop compares the \<^verbatim>\<open>size_t\<close> index with the \<^verbatim>\<open>int\<close>
  count, which C converts to \<^verbatim>\<open>size_t\<close> (32 bits on the target) first.
\<close>

definition lines_write :: "nat list \<Rightarrow> nat \<Rightarrow> nat \<Rightarrow> fault + nat list" where
  "lines_write lines i p = (if i < length lines then Inr (lines[i := p]) else Inl (LINES_OOB i))"

fun split_loop :: "nat \<Rightarrow> string \<Rightarrow> nat \<Rightarrow> nat \<Rightarrow> char list \<Rightarrow> nat list
    \<Rightarrow> fault + (nat \<times> char list \<times> nat list)" where
  "split_loop lim [] p i buf lines = Inr (i, buf, lines)"
| "split_loop lim (c # cs) p i buf lines =
     (if c \<noteq> CHR 0x00 \<and> i < lim then
        (if c = CHR '','' then
           (case lines_write lines i (p + 1) of
              Inl e \<Rightarrow> Inl e
            | Inr lines' \<Rightarrow> split_loop lim cs (p + 1) (i + 1) (buf[p := CHR 0x00]) lines')
         else split_loop lim cs (p + 1) i buf lines)
      else Inr (i, buf, lines))"

definition at_split_respond_lines ::
  "char list option \<Rightarrow> nat list option \<Rightarrow> int \<Rightarrow> char
    \<Rightarrow> fault + (int \<times> char list option \<times> nat list option)" where
  "at_split_respond_lines rbuf lines count separator =
     (case (rbuf, lines) of
        (Some s, Some ls) \<Rightarrow>
          (case lines_write ls 0 0 of
             Inl e \<Rightarrow> Inl e
           | Inr ls1 \<Rightarrow>
               (case split_loop (nat (count mod 2 ^ 32)) s 0 1 s ls1 of
                  Inl e \<Rightarrow> Inl e
                | Inr (i, s', ls') \<Rightarrow> Inr (int i, Some s', Some ls')))
      | _ \<Rightarrow> Inr (0, rbuf, lines))"

subsection \<open>The URC dispatcher\<close>

fun find_urc_loop :: "urc_item list \<Rightarrow> string \<Rightarrow> urc_item option" where
  "find_urc_loop [] b = None"
| "find_urc_loop (t # tbl) b = (if strstr b (prefix t) then Some t else find_urc_loop tbl b)"

definition find_urc_item :: "at_obj \<Rightarrow> char list \<Rightarrow> nat \<Rightarrow> urc_item option" where
  "find_urc_item at urc_buf sz =
     (if sz < 2 then None else find_urc_loop (urc_tbl (adap at)) (c_str urc_buf))"

text \<open>
  Every store into \<^verbatim>\<open>urc_buf\<close> goes through \<open>urc_buf_write\<close>: inside the configured
  capacity it updates the memory, outside it is the fault. The memory \<open>urc_mem\<close> is
  meant to have \<^verbatim>\<open>urc_bufsize\<close> bytes; the statements that read it back say so.
\<close>

definition urc_buf_write :: "at_obj \<Rightarrow> nat \<Rightarrow> char \<Rightarrow> fault + at_obj" where
  "urc_buf_write at i c =
     (if i < urc_bufsize (adap at) then Inr (at\<lparr>urc_mem := (urc_mem at)[i := c]\<rparr>)
      else Inl (URC_OOB i))"

text \<open>
  \<^verbatim>\<open>urc_handler_entry\<close>: the handler is outside the engine; the model records the call
  and what the context shows it, and takes the handler to return without touching
  the controller or the transport.
\<close>

definition urc_handler_entry :: "at_obj \<Rightarrow> urc_item \<Rightarrow> char list \<Rightarrow> nat \<Rightarrow> at_obj" where
  "urc_handler_entry at it urcline sz =
     emit (Urc_handler (handler it) (c_str urcline) (urc_bufsize (adap at)) sz)
       (emit (Dbg_urc (c_str urcline)) at)"

text \<open>
  The body of the \<^verbatim>\<open>while (size--)\<close> loop of \<^verbatim>\<open>urc_recv_process\<close>, for one byte.
  \<open>urc_end_marked\<close> is the block entered on an end mark, after the terminator is
  stored: the table lookup, the dispatch, the unrecognised line.
\<close>

definition urc_end_marked :: "at_obj \<Rightarrow> char \<Rightarrow> at_obj" where
  "urc_end_marked at ch =
     (let at1 = (if urc_item at = None
                 then at\<lparr>urc_item := find_urc_item at (urc_mem at) (urc_cnt at)\<rparr>
                 else at)
      in case urc_item at1 of
           Some it \<Rightarrow>
             if strchr (end_mark it) ch
             then (urc_handler_entry at1 it (urc_mem at1) (urc_cnt at1))
                    \<lparr>urc_cnt := 0, urc_item := None\<rparr>
             else at1
         | None \<Rightarrow>
             if ch = CHR 0x0D \<or> ch = CHR 0x0A \<or> ch = CHR 0x00
             then (if urc_cnt at1 > 2 \<and> \<not> busy at1
                   then emit (Dbg_unrecognized (c_str (urc_mem at1))) at1
                   else at1)\<lparr>urc_cnt := 0\<rparr>
             else at1)"

text \<open>\<open>urc_stored\<close> is what follows the store of the byte and the increment of the count.\<close>

definition urc_stored :: "macros \<Rightarrow> at_obj \<Rightarrow> char \<Rightarrow> fault + at_obj" where
  "urc_stored M at ch =
     (if strchr (SPEC_URC_END_MARKS M) ch \<or> ch = CHR 0x00 then
        (case urc_buf_write at (urc_cnt at) (CHR 0x00) of
           Inl e \<Rightarrow> Inl e
         | Inr at1 \<Rightarrow> Inr (urc_end_marked at1 ch))
      else if urc_cnt at \<ge> urc_bufsize (adap at)
      then Inr (at\<lparr>urc_cnt := 0, urc_item := None\<rparr>)
      else Inr at)"

definition urc_recv_byte :: "macros \<Rightarrow> at_obj \<Rightarrow> char \<Rightarrow> fault + at_obj" where
  "urc_recv_byte M at ch =
     (let (now, at1) = at_get_ms at;
          at2 = at1\<lparr>urc_timer := now\<rparr>
      in case urc_buf_write at2 (urc_cnt at2) ch of
           Inl e \<Rightarrow> Inl e
         | Inr at3 \<Rightarrow> urc_stored M (at3\<lparr>urc_cnt := urc_cnt at3 + 1\<rparr>) ch)"

fun urc_recv_loop :: "macros \<Rightarrow> at_obj \<Rightarrow> char list \<Rightarrow> fault + at_obj" where
  "urc_recv_loop M at [] = Inr at"
| "urc_recv_loop M at (ch # buf) =
     (case urc_recv_byte M at ch of Inl e \<Rightarrow> Inl e | Inr at1 \<Rightarrow> urc_recv_loop M at1 buf)"

text \<open>
  \<^verbatim>\<open>urc_recv_process\<close>: the idle time-out of a message that is accumulating, then the
  loop; \<open>buf\<close> is the \<^verbatim>\<open>size\<close> bytes handed in.
\<close>

definition urc_recv_timeout :: "macros \<Rightarrow> at_obj \<Rightarrow> fault + at_obj" where
  "urc_recv_timeout M at =
     (if urc_cnt at > 0 then
        (let (expired, at1) = at_istimeout at (urc_timer at) (MAX_URC_RECV_TIMEOUT M) in
         if expired then
           (case urc_buf_write at1 (urc_cnt at1) (CHR 0x00) of
              Inl e \<Rightarrow> Inl e
            | Inr at2 \<Rightarrow>
                Inr ((if urc_cnt at2 > 2 then emit (Dbg_urc_timeout (c_str (urc_mem at2))) at2
                      else at2)\<lparr>urc_cnt := 0, urc_item := None\<rparr>))
         else Inr at1)
      else Inr at)"

definition urc_recv_process :: "macros \<Rightarrow> at_obj \<Rightarrow> char list \<Rightarrow> fault + at_obj" where
  "urc_recv_process M at buf =
     (case urc_recv_timeout M at of
        Inl e \<Rightarrow> Inl e
      | Inr at1 \<Rightarrow> urc_recv_loop M at1 buf)"

subsection \<open>The response matcher\<close>

definition resp_notification :: "at_obj \<Rightarrow> at_return \<Rightarrow> at_obj" where
  "resp_notification at r =
     emit Post_completed (at\<lparr>ret := r, resp := None, completed := at_sem_post (completed at)\<rparr>)"

definition rcv_buf_write :: "at_respond \<Rightarrow> at_obj \<Rightarrow> nat \<Rightarrow> char \<Rightarrow> fault + at_obj" where
  "rcv_buf_write r at i c =
     (if i < bufsize r then Inr (at\<lparr>rcv_mem := (rcv_mem at)[i := c]\<rparr>)
      else Inl (RCV_OOB i))"

text \<open>\<^verbatim>\<open>memcpy(rcv_buf + off, buf, size)\<close>, byte by byte.\<close>

fun memcpy_rcv :: "at_respond \<Rightarrow> at_obj \<Rightarrow> nat \<Rightarrow> char list \<Rightarrow> fault + at_obj" where
  "memcpy_rcv r at off [] = Inr at"
| "memcpy_rcv r at off (c # cs) =
     (case rcv_buf_write r at off c of
        Inl e \<Rightarrow> Inl e
      | Inr at1 \<Rightarrow> memcpy_rcv r at1 (off + 1) cs)"

text \<open>
  The accumulation step of \<^verbatim>\<open>resp_recv_process\<close> (the overflow test, the copy and the
  terminator). \<^verbatim>\<open>rcv_size\<close> is an \<^verbatim>\<open>unsigned short\<close>, and the sum is taken in
  \<^verbatim>\<open>unsigned int\<close>.
\<close>

definition resp_accumulate :: "at_respond \<Rightarrow> at_obj \<Rightarrow> char list \<Rightarrow> fault + at_obj" where
  "resp_accumulate r at buf =
     (let rcv_size = bufsize r mod 2 ^ 16;
          at1 = (if (rcv_cnt at + length buf) mod 2 ^ 32 \<ge> rcv_size
                 then emit (Dbg_overflow (c_str (rcv_mem at))) (at\<lparr>rcv_cnt := 0\<rparr>)
                 else at)
      in case memcpy_rcv r at1 (rcv_cnt at1) buf of
           Inl e \<Rightarrow> Inl e
         | Inr at2 \<Rightarrow>
             rcv_buf_write r (at2\<lparr>rcv_cnt := rcv_cnt at2 + length buf\<rparr>)
               (rcv_cnt at2 + length buf) (CHR 0x00))"

text \<open>The last four lines of \<^verbatim>\<open>resp_recv_process\<close>: time-out, then forced termination.\<close>

definition resp_check_timeout :: "at_respond \<Rightarrow> at_obj \<Rightarrow> at_obj" where
  "resp_check_timeout r at =
     (let (expired, at1) = at_istimeout at (resp_timer at) (timeout r) in
      if expired then resp_notification at1 AT_RET_TIMEOUT
      else if suspend at1 then resp_notification at1 AT_RET_ABORT
      else at1)"

definition resp_recv_process :: "at_obj \<Rightarrow> char list \<Rightarrow> fault + at_obj" where
  "resp_recv_process at buf =
     (case resp at of
        None \<Rightarrow> Inr at
      | Some r \<Rightarrow>
          if buf \<noteq> [] then
            (case resp_accumulate r at buf of
               Inl e \<Rightarrow> Inl e
             | Inr at1 \<Rightarrow>
                 if strstr (c_str (rcv_mem at1)) (matcher r)
                 then Inr (resp_notification at1 AT_RET_OK)
                 else if strstr (c_str (rcv_mem at1)) ''ERROR''
                 then Inr (resp_notification at1 AT_RET_ERROR)
                 else Inr (resp_check_timeout r at1))
          else Inr (resp_check_timeout r at))"

subsection \<open>The background reader and the work session's read\<close>

text \<open>
  \<^verbatim>\<open>adap.read(buf, len)\<close> hands over at most \<open>len\<close> of the pending bytes, none when
  nothing is pending.
\<close>

definition adap_read :: "at_obj \<Rightarrow> nat \<Rightarrow> char list \<times> at_obj" where
  "adap_read at len = (take len (rx at), at\<lparr>rx := drop len (rx at)\<rparr>)"

text \<open>One turn of the \<^verbatim>\<open>do ... while (len)\<close> loop of \<^verbatim>\<open>at_process\<close> after its read.\<close>

definition at_process_chunk :: "macros \<Rightarrow> at_obj \<Rightarrow> char list \<Rightarrow> fault + at_obj" where
  "at_process_chunk M at buf =
     (case urc_recv_process M at buf of
        Inl e \<Rightarrow> Inl e
      | Inr at1 \<Rightarrow> resp_recv_process at1 buf)"

text \<open>
  The loop reads one byte at a time (\<^verbatim>\<open>char buf[1]\<close>) and ends with the read that
  returns nothing; the recursion is on the bytes still pending.
\<close>

fun at_process_loop :: "macros \<Rightarrow> char list \<Rightarrow> at_obj \<Rightarrow> fault + at_obj" where
  "at_process_loop M [] at = at_process_chunk M (at\<lparr>rx := []\<rparr>) []"
| "at_process_loop M (c # cs) at =
     (case at_process_chunk M (at\<lparr>rx := cs\<rparr>) [c] of
        Inl e \<Rightarrow> Inl e
      | Inr at1 \<Rightarrow> at_process_loop M cs at1)"

definition at_process :: "macros \<Rightarrow> at_obj \<Rightarrow> fault + at_obj" where
  "at_process M at =
     (let (ok, s) = at_sem_wait (recv_lock at) MAX_AT_LOCK_TIME in
      if \<not> ok then Inr (at\<lparr>recv_lock := s\<rparr>)
      else (case at_process_loop M (rx at) (at\<lparr>recv_lock := s\<rparr>) of
              Inl e \<Rightarrow> Inl e
            | Inr at1 \<Rightarrow> Inr (at1\<lparr>recv_lock := at_sem_post (recv_lock at1)\<rparr>)))"

definition at_work_read :: "macros \<Rightarrow> at_obj \<Rightarrow> nat \<Rightarrow> fault + (char list \<times> at_obj)" where
  "at_work_read M at len =
     (let (buf, at1) = adap_read at len in
      case urc_recv_process M at1 buf of
        Inl e \<Rightarrow> Inl e
      | Inr at2 \<Rightarrow> Inr (buf, at2))"

subsection \<open>The command executor and the work executor\<close>

definition put_string :: "at_obj \<Rightarrow> string \<Rightarrow> at_obj" where
  "put_string at s = foldl (\<lambda>a c. emit (Write c) a) at (c_str s)"

definition put_line :: "at_obj \<Rightarrow> string \<Rightarrow> at_obj" where
  "put_line at s =
     emit (Dbg_cmd (c_str s)) (put_string (put_string at s) [CHR 0x0D, CHR 0x0A])"

text \<open>
  \<^verbatim>\<open>wait_resp\<close> arms the matcher and then blocks on the completion signal while the
  reader task runs. The model takes what the reader does in that time as an
  argument: \<open>bg\<close> lists, for each run of \<^verbatim>\<open>at_process\<close> during the wait, the bytes that
  have arrived for it. After these runs the bounded wait ends: with the signal if
  it has been posted, without it otherwise.
\<close>

definition wait_resp_arm :: "at_obj \<Rightarrow> at_respond \<Rightarrow> at_obj" where
  "wait_resp_arm at r =
     (let (now, at1) = at_get_ms (at\<lparr>ret := AT_RET_TIMEOUT\<rparr>) in
      at1\<lparr>resp_timer := now, rcv_cnt := 0, resp := Some r, rcv_mem := recvbuf r\<rparr>)"

fun run_reader :: "macros \<Rightarrow> char list list \<Rightarrow> at_obj \<Rightarrow> fault + at_obj" where
  "run_reader M [] at = Inr at"
| "run_reader M (b # bg) at =
     (case at_process M (at\<lparr>rx := rx at @ b\<rparr>) of
        Inl e \<Rightarrow> Inl e
      | Inr at1 \<Rightarrow> run_reader M bg at1)"

definition wait_resp ::
  "macros \<Rightarrow> at_obj \<Rightarrow> at_respond \<Rightarrow> char list list \<Rightarrow> fault + (at_return \<times> at_obj)" where
  "wait_resp M at r bg =
     (case run_reader M bg (wait_resp_arm at r) of
        Inl e \<Rightarrow> Inl e
      | Inr at1 \<Rightarrow>
          (let (ok, s) = at_sem_wait (completed at1) (timeout r);
               at2 = emit (Dbg_resp (c_str (rcv_mem at1))) (at1\<lparr>completed := s\<rparr>);
               at3 = at2\<lparr>resp := None\<rparr>
           in Inr (ret at3, at3)))"

text \<open>
  The default response of \<^verbatim>\<open>at_do_cmd\<close>: \<^verbatim>\<open>{"OK", defbuf, sizeof(defbuf), 5000}\<close> with
  the local \<^verbatim>\<open>char defbuf[64]\<close>, which is not initialised.
\<close>

definition defbuf :: "at_obj \<Rightarrow> char list" where
  "defbuf at = map (stack_junk at) [0..<64]"

definition default_resp :: "at_obj \<Rightarrow> at_respond" where
  "default_resp at = \<lparr>matcher = ''OK'', recvbuf = defbuf at, bufsize = 64, timeout = 5000\<rparr>"

text \<open>
  \<^verbatim>\<open>while (at->urc_cnt) at_delay(10);\<close> Only the reader task can end this loop: each
  delay lets it run once on the next element of \<open>bg\<close>. When \<open>bg\<close> is used up with
  a URC still accumulating, the loop does not return.
\<close>

fun wait_urc_idle ::
  "macros \<Rightarrow> char list list \<Rightarrow> at_obj \<Rightarrow> fault + (at_obj \<times> char list list)" where
  "wait_urc_idle M [] at = (if urc_cnt at \<noteq> 0 then Inl No_return else Inr (at, []))"
| "wait_urc_idle M (b # bg) at =
     (if urc_cnt at \<noteq> 0 then
        (case at_process M (at\<lparr>rx := rx at @ b\<rparr>) of
           Inl e \<Rightarrow> Inl e
         | Inr at1 \<Rightarrow> wait_urc_idle M bg at1)
      else Inr (at, b # bg))"

definition at_do_cmd ::
  "macros \<Rightarrow> at_obj \<Rightarrow> at_respond option \<Rightarrow> string \<Rightarrow> char list list
    \<Rightarrow> fault + (at_return \<times> at_obj)" where
  "at_do_cmd M at r0 cmd bg =
     (let r = (case r0 of None \<Rightarrow> default_resp at | Some r1 \<Rightarrow> r1);
          (ok, s) = at_sem_wait (send_lock at) (timeout r)
      in if \<not> ok then Inr (AT_RET_TIMEOUT, at\<lparr>send_lock := s\<rparr>)
         else
           (case wait_urc_idle M bg (at\<lparr>send_lock := s, busy := True\<rparr>) of
              Inl e \<Rightarrow> Inl e
            | Inr (at1, bg1) \<Rightarrow>
                (case wait_resp M (put_line at1 cmd) r bg1 of
                   Inl e \<Rightarrow> Inl e
                 | Inr (res, at2) \<Rightarrow>
                     Inr (res, at2\<lparr>send_lock := at_sem_post (send_lock at2), busy := False\<rparr>))))"

text \<open>
  \<^verbatim>\<open>at_do_work\<close>. \<open>work\<close> is the caller's job run on the context bound to the
  controller; \<open>enc\<close> is the integer value of an \<^verbatim>\<open>at_return\<close> constant, which the
  \<^verbatim>\<open>int\<close> result carries when a lock is not obtained.
\<close>

definition at_do_work ::
  "(at_return \<Rightarrow> int) \<Rightarrow> at_obj \<Rightarrow> (at_obj \<Rightarrow> fault + (int \<times> at_obj))
    \<Rightarrow> fault + (int \<times> at_obj)" where
  "at_do_work enc at work =
     (let (ok, s) = at_sem_wait (send_lock at) MAX_AT_LOCK_TIME;
          at1 = at\<lparr>send_lock := s\<rparr>
      in if \<not> ok then Inr (enc AT_RET_TIMEOUT, at1)
         else
           (let (ok2, s2) = at_sem_wait (recv_lock at1) MAX_AT_LOCK_TIME;
                at2 = at1\<lparr>recv_lock := s2\<rparr>
            in if \<not> ok2 then Inr (enc AT_RET_TIMEOUT, at2)
               else
                 (case work (at2\<lparr>busy := True, rcv_cnt := 0\<rparr>) of
                    Inl e \<Rightarrow> Inl e
                  | Inr (res, at3) \<Rightarrow>
                      Inr (res, at3\<lparr>recv_lock := at_sem_post (recv_lock at3),
                                     send_lock := at_sem_post (send_lock at3),
                                     busy := False\<rparr>))))"

text \<open>\<^verbatim>\<open>at_obj_init\<close>: the adapter is copied in, the semaphores are created.\<close>

definition at_obj_init :: "at_obj \<Rightarrow> at_adapter \<Rightarrow> at_obj" where
  "at_obj_init at ad =
     at\<lparr>adap := ad, rcv_cnt := 0, send_lock := True, recv_lock := True,
        completed := False, urc_item := None\<rparr>"

subsection \<open>Vocabulary of the statements and example configurations\<close>

text \<open>The number of commas in a C string, and of completion posts in a trace.\<close>

definition comma_count :: "char list \<Rightarrow> nat" where
  "comma_count s = length (filter (\<lambda>c. c = CHR '','') (c_str s))"

definition posts :: "at_obj \<Rightarrow> nat" where
  "posts at = length (filter (\<lambda>e. e = Post_completed) (trace at))"

text \<open>
  An example: the table of the \<^verbatim>\<open>+CREG:\<close> scenario, a 16-byte URC buffer, and a
  controller whose memory is zeroed before \<^verbatim>\<open>at_obj_init\<close>, with a clock that stands
  still. \<open>example_macros\<close> takes both line terminators and the two record markers
  as end marks and an idle time-out of 2000 ms.
\<close>

definition creg_item :: urc_item where
  "creg_item = \<lparr>prefix = ''+CREG:'', end_mark = [CHR 0x0D, CHR 0x0A], handler = 7\<rparr>"

definition example_adap :: at_adapter where
  "example_adap = \<lparr>urc_tbl = [creg_item], urc_bufsize = 16\<rparr>"

definition example_macros :: macros where
  "example_macros =
     \<lparr>SPEC_URC_END_MARKS = [CHR '':'', CHR '','', CHR 0x0D, CHR 0x0A],
      MAX_URC_RECV_TIMEOUT = 2000\<rparr>"

definition zeroed :: at_obj where
  "zeroed =
     \<lparr>adap = \<lparr>urc_tbl = [], urc_bufsize = 0\<rparr>, send_lock = False, recv_lock = False,
      completed = False, resp = None, urc_item = None, resp_timer = 0, urc_timer = 0,
      ret = AT_RET_OK, urc_cnt = 0, rcv_cnt = 0, busy = False, suspend = False,
      urc_mem = [CHR 0x00, CHR 0x00, CHR 0x00, CHR 0x00, CHR 0x00, CHR 0x00, CHR 0x00, CHR 0x00,
                 CHR 0x00, CHR 0x00, CHR 0x00, CHR 0x00, CHR 0x00, CHR 0x00, CHR 0x00, CHR 0x00],
      rcv_mem = [], rx = [], clock = (\<lambda>n. 0), ticks = 0,
      stack_junk = (\<lambda>n. CHR 0x00), trace = []\<rparr>"

definition example_at :: at_obj where
  "example_at = at_obj_init zeroed example_adap"

text \<open>
  The result of a command without the final state; a controller whose send lock is
  taken by another command, and one whose receive lock is taken by the reader.
\<close>

definition outcome :: "fault + (at_return \<times> at_obj) \<Rightarrow> at_return option" where
  "outcome x = (case x of Inl e \<Rightarrow> None | Inr (r, a) \<Rightarrow> Some r)"

definition lock_held_at :: at_obj where
  "lock_held_at = example_at\<lparr>send_lock := False\<rparr>"

definition reader_busy_at :: at_obj where
  "reader_busy_at = example_at\<lparr>recv_lock := False\<rparr>"

text \<open>
  The events of the URC dispatcher and those of the response matcher; a trace that
  grows by events of one kind; the fields the matcher never writes and those the
  dispatcher never writes.
\<close>

fun is_urc_event :: "event \<Rightarrow> bool" where
  "is_urc_event (Dbg_urc s) = True"
| "is_urc_event (Dbg_urc_timeout s) = True"
| "is_urc_event (Dbg_unrecognized s) = True"
| "is_urc_event (Urc_handler h s b n) = True"
| "is_urc_event e = False"

fun is_resp_event :: "event \<Rightarrow> bool" where
  "is_resp_event (Dbg_overflow s) = True"
| "is_resp_event Post_completed = True"
| "is_resp_event e = False"

definition trace_ext :: "(event \<Rightarrow> bool) \<Rightarrow> at_obj \<Rightarrow> at_obj \<Rightarrow> bool" where
  "trace_ext P at at' \<longleftrightarrow>
     take (length (trace at)) (trace at') = trace at
     \<and> list_all P (drop (length (trace at)) (trace at'))"

definition resp_frame :: "at_obj \<Rightarrow> at_obj \<Rightarrow> bool" where
  "resp_frame at at' \<longleftrightarrow>
     adap at' = adap at \<and> send_lock at' = send_lock at \<and> recv_lock at' = recv_lock at
     \<and> urc_item at' = urc_item at \<and> resp_timer at' = resp_timer at
     \<and> urc_timer at' = urc_timer at \<and> urc_cnt at' = urc_cnt at \<and> busy at' = busy at
     \<and> suspend at' = suspend at \<and> urc_mem at' = urc_mem at \<and> rx at' = rx at
     \<and> clock at' = clock at \<and> stack_junk at' = stack_junk at"

definition urc_frame :: "at_obj \<Rightarrow> at_obj \<Rightarrow> bool" where
  "urc_frame at at' \<longleftrightarrow>
     adap at' = adap at \<and> send_lock at' = send_lock at \<and> recv_lock at' = recv_lock at
     \<and> completed at' = completed at \<and> resp at' = resp at \<and> resp_timer at' = resp_timer at
     \<and> ret at' = ret at \<and> rcv_cnt at' = rcv_cnt at \<and> busy at' = busy at
     \<and> suspend at' = suspend at \<and> rcv_mem at' = rcv_mem at \<and> rx at' = rx at
     \<and> clock at' = clock at \<and> stack_junk at' = stack_junk at"

text \<open>
  A matcher step that neither posts nor clears; and the two ways a step can relate
  to the completion signal: it leaves the armed description, the result and the
  number of posts as they are, or it clears an armed description with one post.
\<close>

definition quiet :: "at_obj \<Rightarrow> at_obj \<Rightarrow> bool" where
  "quiet at at' \<longleftrightarrow> resp_frame at at' \<and> resp at' = resp at \<and> ret at' = ret at
      \<and> completed at' = completed at \<and> ticks at' = ticks at"

definition post_step :: "at_obj \<Rightarrow> at_obj \<Rightarrow> bool" where
  "post_step at at' \<longleftrightarrow>
     (resp at' = resp at \<and> ret at' = ret at \<and> posts at' = posts at)
     \<or> (resp at \<noteq> None \<and> resp at' = None \<and> posts at' = posts at + 1)"

text \<open>
  A response description with a 16-byte buffer, and the controller armed with it.
\<close>

definition short_resp :: at_respond where
  "short_resp = \<lparr>matcher = ''OK'', recvbuf = ''................'', bufsize = 16, timeout = 5000\<rparr>"

definition armed_at :: at_obj where
  "armed_at = wait_resp_arm example_at short_resp"

text \<open>
  The final state of a command, and a controller on whose clock every reading is
  4000 ms after the one before.
\<close>

definition final :: "fault + (at_return \<times> at_obj) \<Rightarrow> at_obj option" where
  "final x = (case x of Inl e \<Rightarrow> None | Inr (r, a) \<Rightarrow> Some a)"

definition slow_at :: at_obj where
  "slow_at = example_at\<lparr>clock := (\<lambda>n. 4000 * of_nat n)\<rparr>"

text \<open>
  A controller in the middle of both: the text \<^verbatim>\<open>+CREG: 1\<close> has accumulated in the URC
  buffer and in the receive buffer of an armed description whose success token is
  \<^verbatim>\<open>1\<close> followed by a carriage return.
\<close>

definition both_at :: at_obj where
  "both_at =
     (wait_resp_arm example_at
        \<lparr>matcher = [CHR ''1'', CHR 0x0D], recvbuf = ''+CREG: 1........'', bufsize = 16,
         timeout = 5000\<rparr>)
       \<lparr>urc_cnt := 8, urc_mem := ''+CREG: 1........'', rcv_cnt := 8\<rparr>"

text \<open>
  The message up to its carriage return, and the text the \<^verbatim>\<open>+CREG:\<close> handler is to
  see: the message up to the first line terminator that is an end mark of the
  dispatcher. \<open>accumulating at0 it T k a\<close> is the state of a session that has
  accumulated the first \<open>k\<close> bytes of \<open>T\<close> since the state \<open>at0\<close>, with no entry other
  than \<open>it\<close> tentatively matched.
\<close>

definition creg_text :: string where
  "creg_text = ''+CREG: 1'' @ [CHR 0x0D]"

definition creg_seen :: "macros \<Rightarrow> string" where
  "creg_seen M =
     (if CHR 0x0D \<in> set (SPEC_URC_END_MARKS M) then creg_text else creg_text @ [CHR 0x0A])"

definition accumulating :: "at_obj \<Rightarrow> urc_item \<Rightarrow> string \<Rightarrow> nat \<Rightarrow> at_obj \<Rightarrow> bool" where
  "accumulating at0 it T k a \<longleftrightarrow>
     urc_cnt a = k \<and> take k (urc_mem a) = take k T
     \<and> length (urc_mem a) = urc_bufsize (adap a) \<and> adap a = adap at0
     \<and> trace a = trace at0 \<and> (urc_item a = None \<or> urc_item a = Some it)"

text \<open>A controller with a URC buffer of 4 bytes.\<close>

definition small_at :: at_obj where
  "small_at = at_obj_init (zeroed\<lparr>urc_mem := [CHR 0x00, CHR 0x00, CHR 0x00, CHR 0x00]\<rparr>)
                \<lparr>urc_tbl = [creg_item], urc_bufsize = 4\<rparr>"

text \<open>
  What the tokenizer is to do, in the words of its description: the fields of a
  text are separated by commas; with at most \<open>lim\<close> fields wanted, the first field
  starts at offset 0 and each further one behind one of the first \<open>lim - 1\<close>
  commas, these commas are overwritten by NUL, and the starts are stored in the
  first entries of the output array. \<open>comma_offsets p s\<close> are the offsets of the
  commas of the C string \<open>s\<close> that starts at offset \<open>p\<close>.
\<close>

fun comma_offsets :: "nat \<Rightarrow> char list \<Rightarrow> nat list" where
  "comma_offsets p [] = []"
| "comma_offsets p (c # cs) =
     (if c = CHR 0x00 then []
      else if c = CHR '','' then p # comma_offsets (Suc p) cs
      else comma_offsets (Suc p) cs)"

fun nul_at :: "nat list \<Rightarrow> char list \<Rightarrow> char list" where
  "nul_at [] buf = buf"
| "nul_at (q # qs) buf = nul_at qs (buf[q := CHR 0x00])"

fun store_fields :: "nat \<Rightarrow> nat list \<Rightarrow> nat list \<Rightarrow> nat list" where
  "store_fields i [] lines = lines"
| "store_fields i (q # qs) lines = store_fields (Suc i) qs (lines[i := q])"

definition split_fields :: "char list \<Rightarrow> nat list \<Rightarrow> nat \<Rightarrow> int \<times> char list \<times> nat list" where
  "split_fields s lines lim =
     (let cut = take (lim - 1) (comma_offsets 0 s)
      in (1 + int (length cut), nul_at cut s, store_fields 0 (0 # map Suc cut) lines))"

text \<open>
  The state of a command with the description \<open>r\<close> between arming and return: the
  receive buffer is the one handed over, and either the description is armed and
  no outcome recorded, or it is cleared and success was recorded only on a buffer
  that contains the success token.
\<close>

definition answering :: "at_respond \<Rightarrow> at_obj \<Rightarrow> bool" where
  "answering r a \<longleftrightarrow>
     length (rcv_mem a) = length (recvbuf r)
     \<and> ((resp a = Some r \<and> ret a = AT_RET_TIMEOUT)
        \<or> (resp a = None \<and> (ret a = AT_RET_OK \<longrightarrow> strstr (c_str (rcv_mem a)) (matcher r))))"

text \<open>
  The order of the two consumers in the words of the description: every byte, in
  the order of arrival, is offered first to the URC dispatcher and then to the
  response matcher, which works on the state the dispatcher left; \<open>rx\<close> holds the
  bytes not yet read.
\<close>

fun offer_bytes :: "macros \<Rightarrow> char list \<Rightarrow> at_obj \<Rightarrow> fault + at_obj" where
  "offer_bytes M [] a = Inr a"
| "offer_bytes M (c # cs) a =
     (case urc_recv_process M (a\<lparr>rx := cs\<rparr>) [c] of
        Inl e \<Rightarrow> Inl e
      | Inr a1 \<Rightarrow>
          (case resp_recv_process a1 [c] of
             Inl e \<Rightarrow> Inl e
           | Inr a2 \<Rightarrow> offer_bytes M cs a2))"

text \<open>
  Three variations of the example: a table in which an entry with the prefix
  \<^verbatim>\<open>REG\<close> stands before the \<^verbatim>\<open>+CREG:\<close> entry, a URC buffer of 5 bytes, and end marks
  without the line feed.
\<close>

definition shadow_at :: at_obj where
  "shadow_at = at_obj_init zeroed
     \<lparr>urc_tbl = [\<lparr>prefix = ''REG'', end_mark = [CHR 0x0D, CHR 0x0A], handler = 8\<rparr>, creg_item],
      urc_bufsize = 16\<rparr>"

definition five_at :: at_obj where
  "five_at = at_obj_init
     (zeroed\<lparr>urc_mem := [CHR 0x00, CHR 0x00, CHR 0x00, CHR 0x00, CHR 0x00]\<rparr>)
     \<lparr>urc_tbl = [creg_item], urc_bufsize = 5\<rparr>"

definition cr_macros :: macros where
  "cr_macros =
     \<lparr>SPEC_URC_END_MARKS = [CHR '':'', CHR '','', CHR 0x0D], MAX_URC_RECV_TIMEOUT = 2000\<rparr>"

section \<open>Properties\<close>

subsection \<open>The tokenizer\<close>

lemma comma_count_simps:
  "comma_count [] = 0"
  "comma_count (CHR 0x00 # cs) = 0"
  "c \<noteq> CHR 0x00 \<Longrightarrow> comma_count (c # cs) = (if c = CHR '','' then 1 else 0) + comma_count cs"
  by (simp_all add: comma_count_def c_str_def)

lemma comma_count_offsets: "comma_count s = length (comma_offsets p s)"
  by (induction s arbitrary: p) (auto simp: comma_count_simps)

text \<open>
  The loop, started at offset \<open>p\<close> with \<open>i\<close> fields stored: it cuts at the commas it
  still may use, as long as the output array has room for the fields.
\<close>

lemma split_loop_cut:
  "i + length (take (lim - i) (comma_offsets p rest)) \<le> length lines \<Longrightarrow>
   split_loop lim rest p i buf lines =
     Inr (i + length (take (lim - i) (comma_offsets p rest)),
          nul_at (take (lim - i) (comma_offsets p rest)) buf,
          store_fields i (map Suc (take (lim - i) (comma_offsets p rest))) lines)"
proof (induction rest arbitrary: p i buf lines)
  case Nil
  then show ?case by simp
next
  case (Cons c cs)
  show ?case
  proof (cases "c \<noteq> CHR 0x00 \<and> i < lim")
    case False
    then show ?thesis by auto
  next
    case True
    then have l: "lim - i = Suc (lim - Suc i)" by arith
    show ?thesis
    proof (cases "c = CHR '',''")
      case False
      with True Cons.prems have "i + length (take (lim - i) (comma_offsets (Suc p) cs)) \<le> length lines"
        by simp
      from Cons.IH[OF this] True False show ?thesis by simp
    next
      case c: True
      from Cons.prems True c
      have r: "Suc i + length (take (lim - Suc i) (comma_offsets (Suc p) cs)) \<le> length (lines[i := Suc p])"
        and il: "i < length lines"
        by (simp_all add: l)
      from Cons.IH[OF r, of "buf[p := CHR 0x00]"] True c il show ?thesis
        by (simp add: l lines_write_def)
    qed
  qed
qed

lemma split_null:
  "at_split_respond_lines None lines count sep = Inr (0, None, lines)"
  "at_split_respond_lines rbuf None count sep = Inr (0, rbuf, None)"
  by (simp_all add: at_split_respond_lines_def split: option.splits)

lemma split_fields_count:
  "fst (split_fields s ls lim) = 1 + int (min (lim - 1) (comma_count s))"
  by (simp add: split_fields_def Let_def comma_count_offsets[of s 0] min.commute)

lemma at_split_respond_lines_eq:
  assumes "fst (split_fields s ls (nat (count mod 2 ^ 32))) \<le> int (length ls)"
  shows "at_split_respond_lines (Some s) (Some ls) count sep =
     Inr (fst (split_fields s ls (nat (count mod 2 ^ 32))),
          Some (fst (snd (split_fields s ls (nat (count mod 2 ^ 32))))),
          Some (snd (snd (split_fields s ls (nat (count mod 2 ^ 32))))))"
proof -
  define lim where "lim = nat (count mod 2 ^ 32)"
  define cut where "cut = take (lim - 1) (comma_offsets 0 s)"
  from assms have fit: "1 + length cut \<le> length ls"
    by (simp add: split_fields_def Let_def lim_def cut_def)
  then have l0: "0 < length ls" by (cases ls) simp_all
  have "split_loop lim s 0 1 s (ls[0 := 0]) =
      Inr (1 + length cut, nul_at cut s, store_fields 1 (map Suc cut) (ls[0 := 0]))"
    using split_loop_cut[of 1 lim 0 s "ls[0 := 0]" s] fit by (simp add: cut_def)
  then show ?thesis
    unfolding at_split_respond_lines_def lim_def[symmetric]
    using l0 by (simp add: lines_write_def split_fields_def Let_def cut_def)
qed

text \<open>
  C10, as the code has it. With a null buffer or a null output array
  \<^verbatim>\<open>at_split_respond_lines\<close> returns 0 and writes nothing. The separator argument is
  ignored: any separator gives what the comma gives. Otherwise, the output array
  having room for the fields stored, the result is that of \<open>split_fields\<close> for the
  count read as \<^verbatim>\<open>size_t\<close>: the start of the text and the starts behind the first
  commas are stored, these commas are overwritten by NUL, and the number of stored
  fields is returned. For a count from 1 on this number is the smaller of the
  count and the number of commas plus one, so it lies between 1 and the count; for
  a count of 0 the first field is still stored and the result is 1.
\<close>

theorem at_split_respond_lines_fields:
  "at_split_respond_lines None lines count sep = Inr (0, None, lines)
   \<and> at_split_respond_lines rbuf None count sep = Inr (0, rbuf, None)
   \<and> at_split_respond_lines rbuf lines count sep = at_split_respond_lines rbuf lines count (CHR '','')
   \<and> (fst (split_fields s ls (nat (count mod 2 ^ 32))) \<le> int (length ls) \<longrightarrow>
        at_split_respond_lines (Some s) (Some ls) count sep =
          Inr (fst (split_fields s ls (nat (count mod 2 ^ 32))),
               Some (fst (snd (split_fields s ls (nat (count mod 2 ^ 32))))),
               Some (snd (snd (split_fields s ls (nat (count mod 2 ^ 32)))))))
   \<and> (1 \<le> count \<longrightarrow> count < 2 ^ 31 \<longrightarrow>
        fst (split_fields s ls (nat (count mod 2 ^ 32))) = min count (1 + int (comma_count s))
        \<and> 1 \<le> fst (split_fields s ls (nat (count mod 2 ^ 32)))
        \<and> fst (split_fields s ls (nat (count mod 2 ^ 32))) \<le> count)
   \<and> (ls0 \<noteq> [] \<longrightarrow>
        at_split_respond_lines (Some s0) (Some ls0) 0 sep = Inr (1, Some s0, Some (ls0[0 := 0])))"
proof -
  have 3: "at_split_respond_lines rbuf lines count sep = at_split_respond_lines rbuf lines count (CHR '','')"
    by (simp add: at_split_respond_lines_def)
  have 4: "fst (split_fields s ls (nat (count mod 2 ^ 32))) \<le> int (length ls) \<longrightarrow>
        at_split_respond_lines (Some s) (Some ls) count sep =
          Inr (fst (split_fields s ls (nat (count mod 2 ^ 32))),
               Some (fst (snd (split_fields s ls (nat (count mod 2 ^ 32))))),
               Some (snd (snd (split_fields s ls (nat (count mod 2 ^ 32))))))"
    using at_split_respond_lines_eq by blast
  have 5: "1 \<le> count \<longrightarrow> count < 2 ^ 31 \<longrightarrow>
        fst (split_fields s ls (nat (count mod 2 ^ 32))) = min count (1 + int (comma_count s))
        \<and> 1 \<le> fst (split_fields s ls (nat (count mod 2 ^ 32)))
        \<and> fst (split_fields s ls (nat (count mod 2 ^ 32))) \<le> count"
  proof (intro impI)
    assume c: "1 \<le> count" "count < 2 ^ 31"
    then have "nat (count mod 2 ^ 32) = nat count" by simp
    then show "fst (split_fields s ls (nat (count mod 2 ^ 32))) = min count (1 + int (comma_count s))
        \<and> 1 \<le> fst (split_fields s ls (nat (count mod 2 ^ 32)))
        \<and> fst (split_fields s ls (nat (count mod 2 ^ 32))) \<le> count"
      using c unfolding split_fields_count by auto
  qed
  have 6: "ls0 \<noteq> [] \<longrightarrow>
        at_split_respond_lines (Some s0) (Some ls0) 0 sep = Inr (1, Some s0, Some (ls0[0 := 0]))"
  proof
    assume "ls0 \<noteq> []"
    then have "fst (split_fields s0 ls0 (nat (0 mod 2 ^ 32))) \<le> int (length ls0)"
      by (cases ls0) (simp_all add: split_fields_def Let_def)
    from at_split_respond_lines_eq[OF this, of sep] show
      "at_split_respond_lines (Some s0) (Some ls0) 0 sep = Inr (1, Some s0, Some (ls0[0 := 0]))"
      by (simp add: split_fields_def Let_def)
  qed
  from split_null(1)[of lines count sep] split_null(2)[of rbuf count sep] 3 4 5 6
  show ?thesis by (intro conjI)
qed

theorem at_split_respond_lines_fields_witness:
  "fst (split_fields ''a,b,c'' [5, 5] (nat (2 mod 2 ^ 32))) \<le> int (length [5, 5::nat])
   \<and> (1::int) \<le> 2 \<and> (2::int) < 2 ^ 31 \<and> [5::nat] \<noteq> []
   \<and> at_split_respond_lines (Some ''a,b,c'') (Some [5, 5]) 2 (CHR '';'')
       = Inr (2, Some [CHR ''a'', CHR 0x00, CHR ''b'', CHR '','', CHR ''c''], Some [0, 2])
   \<and> at_split_respond_lines (Some ''a,b'') (Some [5]) 0 (CHR '';'') = Inr (1, Some ''a,b'', Some [0])"
  using at_split_respond_lines_fields[of "Some [5, 5]" 2 "CHR '';''" "Some ''a,b,c''" "''a,b,c''"
      "[5, 5]" "[5]" "''a,b''"]
  by (simp add: split_fields_def Let_def at_split_respond_lines_def lines_write_def)

text \<open>
  C10 as stated fails for a count of 0: the first field is stored before the count
  is looked at, so the result is 1, above the count.
\<close>

theorem at_split_respond_lines_count_zero:
  "at_split_respond_lines (Some ''a,b'') (Some [9]) 0 (CHR '','') = Inr (1, Some ''a,b'', Some [0])"
  by (simp add: at_split_respond_lines_def lines_write_def)

subsection \<open>The URC table lookup\<close>

text \<open>
  C9: with fewer than 2 bytes accumulated \<^verbatim>\<open>find_urc_item\<close> returns no entry, whatever
  the table and the buffer hold.
\<close>

theorem find_urc_item_short:
  "sz < 2 \<Longrightarrow> find_urc_item at urc_buf sz = None"
  by (simp add: find_urc_item_def)

theorem find_urc_item_short_witness:
  "(1::nat) < 2 \<and> find_urc_item example_at [CHR 0x0D, CHR 0x00] 1 = None"
  using find_urc_item_short[of 1 example_at "[CHR 0x0D, CHR 0x00]"] by simp

subsection \<open>What the matcher leaves alone\<close>

lemma trace_ext_iff: "trace_ext P at at' \<longleftrightarrow> (\<exists>t. trace at' = trace at @ t \<and> list_all P t)"
proof
  assume "trace_ext P at at'"
  then have "trace at' = trace at @ drop (length (trace at)) (trace at')"
    and "list_all P (drop (length (trace at)) (trace at'))"
    unfolding trace_ext_def by (metis append_take_drop_id, simp)
  then show "\<exists>t. trace at' = trace at @ t \<and> list_all P t" by blast
next
  assume "\<exists>t. trace at' = trace at @ t \<and> list_all P t"
  then show "trace_ext P at at'" by (auto simp: trace_ext_def)
qed

lemma trace_ext_trans: "trace_ext P a b \<Longrightarrow> trace_ext P b c \<Longrightarrow> trace_ext P a c"
  by (auto simp: trace_ext_iff)

lemma resp_frame_trans: "resp_frame a b \<Longrightarrow> resp_frame b c \<Longrightarrow> resp_frame a c"
  by (simp add: resp_frame_def)

lemma urc_frame_trans: "urc_frame a b \<Longrightarrow> urc_frame b c \<Longrightarrow> urc_frame a c"
  by (simp add: urc_frame_def)

lemma rcv_buf_write_Inr:
  "rcv_buf_write r at i c = Inr at' \<Longrightarrow> at' = at\<lparr>rcv_mem := (rcv_mem at)[i := c]\<rparr> \<and> i < bufsize r"
  by (auto simp: rcv_buf_write_def split: if_splits)

lemma memcpy_rcv_Inr:
  "memcpy_rcv r at off buf = Inr at' \<Longrightarrow>
     quiet at at' \<and> trace at' = trace at \<and> rcv_cnt at' = rcv_cnt at"
proof (induction buf arbitrary: at off)
  case Nil
  then show ?case by (simp add: quiet_def resp_frame_def)
next
  case (Cons c cs)
  from Cons.prems obtain at1 where w: "rcv_buf_write r at off c = Inr at1"
    and m: "memcpy_rcv r at1 (off + 1) cs = Inr at'"
    by (auto split: sum.splits)
  from Cons.IH[OF m] rcv_buf_write_Inr[OF w] show ?case
    by (simp add: quiet_def resp_frame_def)
qed

lemma resp_accumulate_Inr:
  assumes "resp_accumulate r at buf = Inr at1"
  shows "quiet at at1 \<and> trace_ext is_resp_event at at1 \<and> posts at1 = posts at"
proof -
  define a0 where "a0 = (if (rcv_cnt at + length buf) mod 2 ^ 32 \<ge> bufsize r mod 2 ^ 16
                 then emit (Dbg_overflow (c_str (rcv_mem at))) (at\<lparr>rcv_cnt := 0\<rparr>)
                 else at)"
  have q0: "quiet at a0" by (simp add: a0_def quiet_def resp_frame_def emit_def)
  have t0: "trace_ext is_resp_event at a0" by (simp add: a0_def trace_ext_iff emit_def)
  have p0: "posts a0 = posts at" by (simp add: a0_def posts_def emit_def)
  from assms obtain a2 where m: "memcpy_rcv r a0 (rcv_cnt a0) buf = Inr a2"
    and w: "rcv_buf_write r (a2\<lparr>rcv_cnt := rcv_cnt a2 + length buf\<rparr>) (rcv_cnt a2 + length buf) (CHR 0x00) = Inr at1"
    unfolding resp_accumulate_def a0_def[symmetric] Let_def by (auto split: sum.splits)
  from memcpy_rcv_Inr[OF m] rcv_buf_write_Inr[OF w] q0 t0 p0
  show ?thesis by (simp add: quiet_def resp_frame_def trace_ext_def posts_def)
qed

lemma post_step_trans: "post_step a b \<Longrightarrow> post_step b c \<Longrightarrow> post_step a c"
  by (auto simp: post_step_def)

lemma resp_notification_props:
  "resp_frame at (resp_notification at x)"
  "trace (resp_notification at x) = trace at @ [Post_completed]"
  "resp (resp_notification at x) = None"
  "ret (resp_notification at x) = x"
  "rcv_mem (resp_notification at x) = rcv_mem at"
  "posts (resp_notification at x) = posts at + 1"
  by (simp_all add: resp_notification_def resp_frame_def emit_def posts_def)

lemma resp_check_timeout_props:
  "resp_frame at (resp_check_timeout r at)"
  "rcv_mem (resp_check_timeout r at) = rcv_mem at"
  "trace_ext is_resp_event at (resp_check_timeout r at)"
  "resp at \<noteq> None \<Longrightarrow> post_step at (resp_check_timeout r at)"
     apply (simp_all add: resp_check_timeout_def at_istimeout_def at_get_ms_def
      resp_notification_def resp_frame_def emit_def trace_ext_def)
  apply (auto simp add: post_step_def posts_def)
  done

lemma resp_recv_process_idle: "resp at = None \<Longrightarrow> resp_recv_process at buf = Inr at"
  by (simp add: resp_recv_process_def)

lemma resp_recv_process_Inr:
  assumes "resp_recv_process at buf = Inr at'"
  shows "resp_frame at at' \<and> trace_ext is_resp_event at at' \<and> post_step at at'"
proof (cases "resp at")
  case None
  with assms have "at' = at" by (simp add: resp_recv_process_def)
  then show ?thesis by (simp add: resp_frame_def trace_ext_def post_step_def)
next
  case (Some r)
  show ?thesis
  proof (cases "buf = []")
    case True
    with assms Some have "at' = resp_check_timeout r at" by (simp add: resp_recv_process_def)
    then show ?thesis using resp_check_timeout_props[where at=at and r=r] Some by simp
  next
    case False
    with assms Some obtain at1 where a: "resp_accumulate r at buf = Inr at1"
      and e: "at' = (if strstr (c_str (rcv_mem at1)) (matcher r) then resp_notification at1 AT_RET_OK
                 else if strstr (c_str (rcv_mem at1)) ''ERROR'' then resp_notification at1 AT_RET_ERROR
                 else resp_check_timeout r at1)"
      by (auto simp: resp_recv_process_def split: sum.splits if_splits)
    from resp_accumulate_Inr[OF a] have q: "quiet at at1" and t: "trace_ext is_resp_event at at1"
      and p: "posts at1 = posts at" by auto
    have r1: "resp at1 \<noteq> None" using q Some by (simp add: quiet_def)
    have f: "resp_frame at1 at'" using e resp_notification_props(1) resp_check_timeout_props(1) by simp
    have t': "trace_ext is_resp_event at1 at'"
      using e resp_check_timeout_props(3)[where at=at1 and r=r] by (simp add: resp_notification_props trace_ext_iff)
    have s: "post_step at1 at'"
      using e resp_check_timeout_props(4)[OF r1, where r=r] r1
      by (auto simp: post_step_def resp_notification_props)
    have s0: "post_step at at1" using q p by (simp add: post_step_def quiet_def)
    from q f t t' s s0 show ?thesis
      by (auto simp: quiet_def intro: resp_frame_trans trace_ext_trans post_step_trans)
  qed
qed

subsection \<open>Locks\<close>

lemmas example_defs = example_at_def at_obj_init_def zeroed_def example_adap_def
  example_macros_def creg_item_def

lemmas sem_defs = at_sem_wait_def at_sem_post_def

text \<open>
  C2 does not hold of the code: when the send lock is obtained and the receive lock
  is not, \<^verbatim>\<open>at_do_work\<close> returns \<^verbatim>\<open>AT_RET_TIMEOUT\<close> with the send lock still taken.
  Here the reader holds the receive lock and the send lock is free before the call.
\<close>

theorem at_do_work_keeps_send_lock:
  "send_lock reader_busy_at \<and>
   at_do_work enc reader_busy_at work
     = Inr (enc AT_RET_TIMEOUT, reader_busy_at\<lparr>send_lock := False\<rparr>)"
  by (simp add: at_do_work_def reader_busy_at_def example_defs sem_defs)

text \<open>
  C3, as the code has it: when the send lock is not obtained, \<^verbatim>\<open>at_do_cmd\<close> returns
  \<^verbatim>\<open>AT_RET_TIMEOUT\<close> and leaves the controller and the trace as they were, so nothing
  is written to the transport.
\<close>

theorem at_do_cmd_lock_timeout:
  "\<not> send_lock at \<Longrightarrow> at_do_cmd M at r0 cmd bg = Inr (AT_RET_TIMEOUT, at)"
  by (simp add: at_do_cmd_def sem_defs)

theorem at_do_cmd_lock_timeout_witness:
  "\<not> send_lock lock_held_at \<and>
   at_do_cmd example_macros lock_held_at None ''AT'' [] = Inr (AT_RET_TIMEOUT, lock_held_at)"
  using at_do_cmd_lock_timeout[of lock_held_at example_macros None "''AT''" "[]"]
  by (simp add: lock_held_at_def)

text \<open>
  C3 as stated fails: the result for a send lock that is not obtained is the result
  for a response that does not arrive in time. The first command finds the lock
  taken; the second obtains it and receives nothing.
\<close>

theorem at_do_cmd_busy_is_timeout:
  "outcome (at_do_cmd example_macros lock_held_at None ''AT'' []) = Some AT_RET_TIMEOUT
   \<and> outcome (at_do_cmd example_macros example_at None ''AT'' []) = Some AT_RET_TIMEOUT"
  by (simp add: at_do_cmd_def lock_held_at_def example_defs sem_defs outcome_def wait_resp_def
      wait_resp_arm_def at_get_ms_def put_line_def put_string_def emit_def c_str_def
      default_resp_def)

subsection \<open>What the dispatcher leaves alone\<close>

lemma urc_events_no_post: "list_all is_urc_event t \<Longrightarrow> filter (\<lambda>e. e = Post_completed) t = []"
  by (induction t) auto

lemma trace_ext_urc_posts: "trace_ext is_urc_event at at' \<Longrightarrow> posts at' = posts at"
  by (auto simp: trace_ext_iff posts_def urc_events_no_post)

lemma urc_buf_write_Inr:
  "urc_buf_write at i c = Inr at' \<Longrightarrow>
     at' = at\<lparr>urc_mem := (urc_mem at)[i := c]\<rparr> \<and> i < urc_bufsize (adap at)"
  by (auto simp: urc_buf_write_def split: if_splits)

text \<open>The end-mark block as a record update.\<close>

lemma urc_end_marked_shape:
  "\<exists>it n t. urc_end_marked at ch = at\<lparr>urc_item := it, urc_cnt := n, trace := trace at @ t\<rparr>
      \<and> list_all is_urc_event t"
proof -
  define a1 where "a1 = (if urc_item at = None
                 then at\<lparr>urc_item := find_urc_item at (urc_mem at) (urc_cnt at)\<rparr>
                 else at)"
  have s1: "a1 = at\<lparr>urc_item := urc_item a1\<rparr>" by (simp add: a1_def)
  have t1: "trace a1 = trace at" "urc_cnt a1 = urc_cnt at" by (simp_all add: a1_def)
  have e: "urc_end_marked at ch = (case urc_item a1 of
           Some it \<Rightarrow>
             if strchr (end_mark it) ch
             then (urc_handler_entry a1 it (urc_mem a1) (urc_cnt a1))
                    \<lparr>urc_cnt := 0, urc_item := None\<rparr>
             else a1
         | None \<Rightarrow>
             if ch = CHR 0x0D \<or> ch = CHR 0x0A \<or> ch = CHR 0x00
             then (if urc_cnt a1 > 2 \<and> \<not> busy a1
                   then emit (Dbg_unrecognized (c_str (urc_mem a1))) a1
                   else a1)\<lparr>urc_cnt := 0\<rparr>
             else a1)"
    unfolding urc_end_marked_def a1_def Let_def by (rule refl)
  have "\<exists>it n t. urc_end_marked at ch = a1\<lparr>urc_item := it, urc_cnt := n, trace := trace a1 @ t\<rparr>
      \<and> list_all is_urc_event t"
  proof (cases "urc_item a1")
    case None
    show ?thesis
    proof (cases "ch = CHR 0x0D \<or> ch = CHR 0x0A \<or> ch = CHR 0x00")
      case True
      show ?thesis
      proof (cases "urc_cnt a1 > 2 \<and> \<not> busy a1")
        case True
        with None \<open>ch = CHR 0x0D \<or> ch = CHR 0x0A \<or> ch = CHR 0x00\<close> e
        have "urc_end_marked at ch = a1\<lparr>urc_item := None, urc_cnt := 0,
                 trace := trace a1 @ [Dbg_unrecognized (c_str (urc_mem a1))]\<rparr>"
          by (simp add: emit_def)
        moreover have "list_all is_urc_event [Dbg_unrecognized (c_str (urc_mem a1))]" by simp
        ultimately show ?thesis by blast
      next
        case False
        with None \<open>ch = CHR 0x0D \<or> ch = CHR 0x0A \<or> ch = CHR 0x00\<close> e
        have "urc_end_marked at ch = a1\<lparr>urc_item := None, urc_cnt := 0, trace := trace a1 @ []\<rparr>"
          by simp
        moreover have "list_all is_urc_event []" by simp
      ultimately show ?thesis by blast
      qed
    next
      case False
      with None e have "urc_end_marked at ch = a1\<lparr>urc_item := None, urc_cnt := urc_cnt a1, trace := trace a1 @ []\<rparr>"
        by simp
      moreover have "list_all is_urc_event []" by simp
      ultimately show ?thesis by blast
    qed
  next
    case (Some it)
    show ?thesis
    proof (cases "strchr (end_mark it) ch")
      case True
      with Some e have "urc_end_marked at ch = a1\<lparr>urc_item := None, urc_cnt := 0,
          trace := trace a1 @ [Dbg_urc (c_str (urc_mem a1)),
             Urc_handler (handler it) (c_str (urc_mem a1)) (urc_bufsize (adap a1)) (urc_cnt a1)]\<rparr>"
        by (simp add: urc_handler_entry_def emit_def)
      moreover have "list_all is_urc_event [Dbg_urc (c_str (urc_mem a1)),
             Urc_handler (handler it) (c_str (urc_mem a1)) (urc_bufsize (adap a1)) (urc_cnt a1)]"
        by simp
      ultimately show ?thesis by blast
    next
      case False
      with Some e have "urc_end_marked at ch = a1\<lparr>urc_item := Some it, urc_cnt := urc_cnt a1, trace := trace a1 @ []\<rparr>"
        by simp
      moreover have "list_all is_urc_event []" by simp
      ultimately show ?thesis by blast
    qed
  qed
  then obtain it n t where "urc_end_marked at ch = a1\<lparr>urc_item := it, urc_cnt := n, trace := trace a1 @ t\<rparr>"
    and "list_all is_urc_event t" by blast
  then have "urc_end_marked at ch = at\<lparr>urc_item := it, urc_cnt := n, trace := trace at @ t\<rparr>"
    using t1 by (subst (asm) s1) simp
  with \<open>list_all is_urc_event t\<close> show ?thesis by blast
qed

lemma urc_end_marked_props:
  "urc_frame at (urc_end_marked at ch)" "trace_ext is_urc_event at (urc_end_marked at ch)"
proof -
  from urc_end_marked_shape[of at ch] obtain it n t where
    e: "urc_end_marked at ch = at\<lparr>urc_item := it, urc_cnt := n, trace := trace at @ t\<rparr>"
    and t: "list_all is_urc_event t" by blast
  show "urc_frame at (urc_end_marked at ch)" unfolding e by (simp add: urc_frame_def)
  show "trace_ext is_urc_event at (urc_end_marked at ch)" unfolding e using t by (simp add: trace_ext_def)
qed

lemma urc_stored_Inr:
  assumes "urc_stored M at ch = Inr at'"
  shows "urc_frame at at' \<and> trace_ext is_urc_event at at'"
proof (cases "strchr (SPEC_URC_END_MARKS M) ch \<or> ch = CHR 0x00")
  case True
  show ?thesis
  proof (cases "urc_buf_write at (urc_cnt at) (CHR 0x00)")
    case (Inl e)
    then show ?thesis using assms True by (simp add: urc_stored_def)
  next
    case (Inr a1)
    have e: "at' = urc_end_marked a1 ch" using assms True Inr by (simp add: urc_stored_def)
    have "urc_frame at a1" "trace_ext is_urc_event at a1"
      using urc_buf_write_Inr[OF Inr] by (simp_all add: urc_frame_def trace_ext_def)
    with urc_end_marked_props[of a1 ch] e show ?thesis
      by (auto intro: urc_frame_trans trace_ext_trans)
  qed
next
  case False
  with assms have "at' = at\<lparr>urc_cnt := 0, urc_item := None\<rparr> \<or> at' = at"
    by (auto simp: urc_stored_def split: if_splits)
  then show ?thesis by (auto simp: urc_frame_def trace_ext_def)
qed

lemma urc_recv_byte_Inr:
  assumes "urc_recv_byte M at ch = Inr at'"
  shows "urc_frame at at' \<and> trace_ext is_urc_event at at'"
proof -
  define a2 where "a2 = at\<lparr>ticks := Suc (ticks at), urc_timer := clock at (ticks at)\<rparr>"
  have u: "urc_recv_byte M at ch = (case urc_buf_write a2 (urc_cnt a2) ch of
           Inl e \<Rightarrow> Inl e
         | Inr at3 \<Rightarrow> urc_stored M (at3\<lparr>urc_cnt := urc_cnt at3 + 1\<rparr>) ch)"
    unfolding urc_recv_byte_def at_get_ms_def a2_def by simp
  show ?thesis
  proof (cases "urc_buf_write a2 (urc_cnt a2) ch")
    case (Inl e)
    then show ?thesis using assms u by simp
  next
    case (Inr a3)
    have "urc_frame at (a3\<lparr>urc_cnt := urc_cnt a3 + 1\<rparr>)"
      "trace_ext is_urc_event at (a3\<lparr>urc_cnt := urc_cnt a3 + 1\<rparr>)"
      using urc_buf_write_Inr[OF Inr] by (simp_all add: a2_def urc_frame_def trace_ext_def)
    moreover have "urc_stored M (a3\<lparr>urc_cnt := urc_cnt a3 + 1\<rparr>) ch = Inr at'"
      using assms u Inr by simp
    ultimately show ?thesis using urc_stored_Inr
      by (blast intro: urc_frame_trans trace_ext_trans)
  qed
qed

lemma urc_recv_loop_Inr:
  "urc_recv_loop M at buf = Inr at' \<Longrightarrow> urc_frame at at' \<and> trace_ext is_urc_event at at'"
proof (induction buf arbitrary: at)
  case Nil
  then show ?case by (simp add: urc_frame_def trace_ext_def)
next
  case (Cons c cs)
  then obtain at1 where "urc_recv_byte M at c = Inr at1" "urc_recv_loop M at1 cs = Inr at'"
    by (auto split: sum.splits)
  with Cons.IH[of at1] urc_recv_byte_Inr[of M at c at1] show ?case
    by (blast intro: urc_frame_trans trace_ext_trans)
qed

lemma urc_recv_timeout_Inr:
  assumes "urc_recv_timeout M at = Inr at'"
  shows "urc_frame at at' \<and> trace_ext is_urc_event at at'"
proof (cases "urc_cnt at > 0")
  case False
  with assms have "at' = at" by (simp add: urc_recv_timeout_def)
  then show ?thesis by (simp add: urc_frame_def trace_ext_def)
next
  case True
  define expired where "expired \<longleftrightarrow> clock at (ticks at) - urc_timer at > MAX_URC_RECV_TIMEOUT M"
  define a1 where "a1 = at\<lparr>ticks := Suc (ticks at)\<rparr>"
  have i: "at_istimeout at (urc_timer at) (MAX_URC_RECV_TIMEOUT M) = (expired, a1)"
    by (simp add: at_istimeout_def at_get_ms_def expired_def a1_def)
  have u: "urc_recv_timeout M at =
        (if expired then
           (case urc_buf_write a1 (urc_cnt a1) (CHR 0x00) of
              Inl e \<Rightarrow> Inl e
            | Inr at2 \<Rightarrow>
                Inr ((if urc_cnt at2 > 2 then emit (Dbg_urc_timeout (c_str (urc_mem at2))) at2
                      else at2)\<lparr>urc_cnt := 0, urc_item := None\<rparr>))
         else Inr a1)"
    unfolding urc_recv_timeout_def i using True by simp
  show ?thesis
  proof (cases expired)
    case False
    with assms u have "at' = a1" by simp
    then show ?thesis by (simp add: a1_def urc_frame_def trace_ext_def)
  next
    case e: True
    show ?thesis
    proof (cases "urc_buf_write a1 (urc_cnt a1) (CHR 0x00)")
      case (Inl x)
      then show ?thesis using assms u e by simp
    next
      case (Inr a2)
      with assms u e have e': "at' = (if urc_cnt a2 > 2 then emit (Dbg_urc_timeout (c_str (urc_mem a2))) a2
                      else a2)\<lparr>urc_cnt := 0, urc_item := None\<rparr>" by simp
      have "urc_frame at a2" "trace a2 = trace at"
        using urc_buf_write_Inr[OF Inr] by (simp_all add: a1_def urc_frame_def)
      then show ?thesis unfolding e' by (simp add: urc_frame_def trace_ext_def emit_def)
    qed
  qed
qed

lemma urc_recv_process_Inr:
  assumes "urc_recv_process M at buf = Inr at'"
  shows "urc_frame at at' \<and> trace_ext is_urc_event at at'"
proof -
  from assms obtain a1 where "urc_recv_timeout M at = Inr a1" "urc_recv_loop M a1 buf = Inr at'"
    by (auto simp: urc_recv_process_def split: sum.splits)
  with urc_recv_timeout_Inr urc_recv_loop_Inr show ?thesis
    by (blast intro: urc_frame_trans trace_ext_trans)
qed

subsection \<open>The order of the success and the failure token\<close>

lemma list_update_Cons_numeral:
  "(x # xs)[numeral v := y] = x # xs[numeral v - 1 := y]"
  by (simp add: numeral_eq_Suc)

lemmas urc_eval = urc_recv_process_def urc_recv_timeout_def urc_recv_byte_def urc_stored_def
  urc_end_marked_def urc_buf_write_def urc_handler_entry_def find_urc_item_def emit_def
  at_get_ms_def at_istimeout_def strchr_def c_str_def list_update_Cons_numeral

lemmas resp_eval = resp_recv_process_def resp_accumulate_def rcv_buf_write_def
  resp_check_timeout_def resp_notification_def emit_def at_get_ms_def at_istimeout_def
  at_sem_post_def c_str_def list_update_Cons_numeral

text \<open>
  C5: when the text accumulated by a call of the matcher contains both the success
  token of the armed description and \<^verbatim>\<open>ERROR\<close>, the recorded outcome is
  \<^verbatim>\<open>AT_RET_OK\<close>; the description is cleared and the completion signal posted once.
\<close>

theorem resp_success_before_error:
  assumes "resp at = Some r" and "buf \<noteq> []" and "resp_recv_process at buf = Inr at'"
    and "strstr (c_str (rcv_mem at')) (matcher r)"
    and "strstr (c_str (rcv_mem at')) ''ERROR''"
  shows "ret at' = AT_RET_OK \<and> resp at' = None \<and> posts at' = posts at + 1"
proof -
  from assms(1-3) obtain at1 where a: "resp_accumulate r at buf = Inr at1"
    and e: "at' = (if strstr (c_str (rcv_mem at1)) (matcher r) then resp_notification at1 AT_RET_OK
               else if strstr (c_str (rcv_mem at1)) ''ERROR'' then resp_notification at1 AT_RET_ERROR
               else resp_check_timeout r at1)"
    by (auto simp: resp_recv_process_def split: sum.splits if_splits)
  have m: "rcv_mem at' = rcv_mem at1"
    using e by (simp add: resp_notification_props resp_check_timeout_props)
  with assms(4) e have "at' = resp_notification at1 AT_RET_OK" by simp
  then show ?thesis using resp_accumulate_Inr[OF a] by (simp add: resp_notification_props)
qed

theorem resp_success_before_error_witness:
  "resp armed_at = Some short_resp \<and> ''ERROR OK'' \<noteq> []
   \<and> strstr (c_str (rcv_mem (projr (resp_recv_process armed_at ''ERROR OK'')))) (matcher short_resp)
   \<and> strstr (c_str (rcv_mem (projr (resp_recv_process armed_at ''ERROR OK'')))) ''ERROR''
   \<and> ret (projr (resp_recv_process armed_at ''ERROR OK'')) = AT_RET_OK
   \<and> resp (projr (resp_recv_process armed_at ''ERROR OK'')) = None
   \<and> posts (projr (resp_recv_process armed_at ''ERROR OK'')) = posts armed_at + 1"
proof -
  have r: "resp armed_at = Some short_resp"
    by (simp add: armed_at_def wait_resp_arm_def at_get_ms_def)
  have "\<exists>a. resp_recv_process armed_at ''ERROR OK'' = Inr a"
    by (simp add: armed_at_def wait_resp_arm_def short_resp_def example_defs resp_eval)
  then have e: "resp_recv_process armed_at ''ERROR OK'' = Inr (projr (resp_recv_process armed_at ''ERROR OK''))"
    by auto
  have m: "c_str (rcv_mem (projr (resp_recv_process armed_at ''ERROR OK''))) = ''ERROR OK''"
    by (simp add: armed_at_def wait_resp_arm_def short_resp_def example_defs resp_eval)
  have s: "strstr ''ERROR OK'' (matcher short_resp)" "strstr ''ERROR OK'' ''ERROR''"
    by (simp_all add: short_resp_def)
  from resp_success_before_error[OF r _ e] m s r show ?thesis by simp
qed

subsection \<open>The reader and the completion signal\<close>

lemma post_step_rx: "post_step at (at\<lparr>rx := x\<rparr>)"
  by (simp add: post_step_def posts_def)

lemma post_step_urc: "urc_frame at a1 \<Longrightarrow> trace_ext is_urc_event at a1 \<Longrightarrow> post_step at a1"
  by (simp add: post_step_def urc_frame_def trace_ext_urc_posts)

lemma at_process_chunk_Inr:
  assumes "at_process_chunk M at buf = Inr at'"
  shows "post_step at at'"
proof -
  from assms obtain a1 where u: "urc_recv_process M at buf = Inr a1"
    and r: "resp_recv_process a1 buf = Inr at'"
    by (auto simp: at_process_chunk_def split: sum.splits)
  from urc_recv_process_Inr[OF u] resp_recv_process_Inr[OF r] show ?thesis
    by (blast intro: post_step_urc post_step_trans)
qed

lemma at_process_loop_Inr:
  "at_process_loop M bs at = Inr at' \<Longrightarrow> post_step at at'"
proof (induction bs arbitrary: at)
  case Nil
  then have "post_step (at\<lparr>rx := []\<rparr>) at'" by (simp add: at_process_chunk_Inr)
  with post_step_rx show ?case by (blast intro: post_step_trans)
next
  case (Cons c cs)
  then obtain a1 where c: "at_process_chunk M (at\<lparr>rx := cs\<rparr>) [c] = Inr a1"
    and l: "at_process_loop M cs a1 = Inr at'"
    by (auto split: sum.splits)
  from at_process_chunk_Inr[OF c] Cons.IH[OF l] post_step_rx show ?case
    by (blast intro: post_step_trans)
qed

lemma post_step_recv_lock: "post_step at (at\<lparr>recv_lock := x\<rparr>)"
  by (simp add: post_step_def posts_def)

lemma at_process_Inr:
  assumes "at_process M at = Inr at'"
  shows "post_step at at'"
proof (cases "recv_lock at")
  case False
  with assms have "at' = at\<lparr>recv_lock := False\<rparr>" by (simp add: at_process_def at_sem_wait_def)
  then show ?thesis by (simp add: post_step_recv_lock)
next
  case True
  with assms obtain a1 where l: "at_process_loop M (rx at) (at\<lparr>recv_lock := False\<rparr>) = Inr a1"
    and e: "at' = a1\<lparr>recv_lock := at_sem_post (recv_lock a1)\<rparr>"
    by (auto simp: at_process_def at_sem_wait_def split: sum.splits)
  from at_process_loop_Inr[OF l] post_step_recv_lock e show ?thesis
    by (blast intro: post_step_trans)
qed

lemma run_reader_Inr:
  "run_reader M bg at = Inr at' \<Longrightarrow> post_step at at'"
proof (induction bg arbitrary: at)
  case Nil
  then show ?case by (simp add: post_step_def)
next
  case (Cons b bg)
  then obtain a1 where p: "at_process M (at\<lparr>rx := rx at @ b\<rparr>) = Inr a1"
    and l: "run_reader M bg a1 = Inr at'"
    by (auto split: sum.splits)
  from at_process_Inr[OF p] Cons.IH[OF l] post_step_rx show ?case
    by (blast intro: post_step_trans)
qed

subsection \<open>The completion signal\<close>

lemma wait_resp_arm_props:
  "resp (wait_resp_arm at r) = Some r" "ret (wait_resp_arm at r) = AT_RET_TIMEOUT"
  "posts (wait_resp_arm at r) = posts at"
  by (simp_all add: wait_resp_arm_def at_get_ms_def posts_def)

text \<open>
  C4, as the code has it. In a command lifecycle (\<^verbatim>\<open>wait_resp\<close> arms the description,
  the reader runs, \<^verbatim>\<open>wait_resp\<close> clears it) the completion signal is posted at most
  once. It is posted exactly once when the matcher determines the outcome, which
  clears the description and is the result; when the reader leaves the description
  armed, the bounded wait of \<^verbatim>\<open>wait_resp\<close> ends the lifecycle with
  \<^verbatim>\<open>AT_RET_TIMEOUT\<close> and no post. After the lifecycle a call of the matcher does
  nothing, so nothing posts again.
\<close>

theorem completion_posted_at_most_once:
  "wait_resp M at r bg = Inr (res, at') \<Longrightarrow>
     (\<exists>a1. run_reader M bg (wait_resp_arm at r) = Inr a1 \<and>
        (if resp a1 = None then posts at' = posts at + 1 \<and> res = ret a1
         else posts at' = posts at \<and> res = AT_RET_TIMEOUT))
     \<and> resp at' = None \<and> resp_recv_process at' buf = Inr at'"
proof -
  assume w: "wait_resp M at r bg = Inr (res, at')"
  then obtain a1 where rr: "run_reader M bg (wait_resp_arm at r) = Inr a1"
    and e: "at' = (emit (Dbg_resp (c_str (rcv_mem a1)))
                     (a1\<lparr>completed := snd (at_sem_wait (completed a1) (timeout r))\<rparr>))\<lparr>resp := None\<rparr>"
    and re: "res = ret a1"
    by (auto simp: wait_resp_def Let_def emit_def split: sum.splits prod.splits)
  have p: "posts at' = posts a1" and n: "resp at' = None"
    unfolding e by (simp_all add: posts_def emit_def)
  from run_reader_Inr[OF rr]
  have "if resp a1 = None then posts at' = posts at + 1 \<and> res = ret a1
         else posts at' = posts at \<and> res = AT_RET_TIMEOUT"
    unfolding p re by (auto simp: post_step_def wait_resp_arm_props)
  with rr n resp_recv_process_idle[OF n] show ?thesis by blast
qed

lemmas reader_eval = wait_resp_def wait_resp_arm_def at_process_def at_process_chunk_def sem_defs
  urc_eval resp_eval

theorem completion_posted_at_most_once_witness:
  "wait_resp example_macros example_at short_resp [''OK'']
     = Inr (AT_RET_OK, snd (projr (wait_resp example_macros example_at short_resp [''OK''])))
   \<and> posts (snd (projr (wait_resp example_macros example_at short_resp [''OK''])))
       = posts example_at + 1
   \<and> resp (snd (projr (wait_resp example_macros example_at short_resp [''OK'']))) = None"
proof -
  have "\<exists>a. wait_resp example_macros example_at short_resp [''OK''] = Inr (AT_RET_OK, a)"
    by (simp add: reader_eval short_resp_def example_defs)
  then have h: "wait_resp example_macros example_at short_resp [''OK'']
     = Inr (AT_RET_OK, snd (projr (wait_resp example_macros example_at short_resp [''OK''])))"
    by auto
  have r: "\<exists>a1. run_reader example_macros [''OK''] (wait_resp_arm example_at short_resp) = Inr a1
       \<and> resp a1 = None"
    by (simp add: reader_eval short_resp_def example_defs)
  from completion_posted_at_most_once[OF h, of "[]"] r h show ?thesis by auto
qed

text \<open>
  C4 as stated fails: here the reader runs once during the wait, 4000 ms after the
  description was armed with a time-out of 5000 ms, and no byte has arrived. The
  matcher sees no time-out yet; the bounded wait ends before the reader runs again,
  and the lifecycle is over with the result \<^verbatim>\<open>AT_RET_TIMEOUT\<close> and no post of the
  completion signal.
\<close>

theorem completion_not_posted_on_wait_timeout:
  "posts slow_at = 0
   \<and> outcome (wait_resp example_macros slow_at short_resp [[]]) = Some AT_RET_TIMEOUT
   \<and> map_option posts (final (wait_resp example_macros slow_at short_resp [[]])) = Some 0
   \<and> map_option resp (final (wait_resp example_macros slow_at short_resp [[]])) = Some None"
  by (simp add: reader_eval short_resp_def slow_at_def example_defs outcome_def final_def posts_def)

subsection \<open>The C strings\<close>

lemma starts_with_append: "starts_with n h \<Longrightarrow> starts_with n (h @ t)"
  by (induction n h rule: starts_with.induct) auto

lemma strstr_Nil: "strstr h []"
  by (cases h) auto

lemma strstr_append: "strstr h n \<Longrightarrow> strstr (h @ t) n"
proof (induction h)
  case Nil
  then show ?case by (simp add: strstr_Nil)
next
  case (Cons x xs)
  then show ?case using starts_with_append[of n "x # xs" t] by auto
qed

lemma strstr_take: "strstr (take k T) n \<Longrightarrow> strstr T n"
  using strstr_append[of "take k T" n "drop k T"] by simp

lemma c_str_take:
  assumes "k < length m" "m ! k = CHR 0x00" "CHR 0x00 \<notin> set (take k m)"
  shows "c_str m = take k m"
proof -
  have "m = take k m @ m ! k # drop (Suc k) m" using assms(1) by (simp add: id_take_nth_drop)
  then have "c_str m = takeWhile (\<lambda>c. c \<noteq> CHR 0x00) (take k m @ CHR 0x00 # drop (Suc k) m)"
    using assms(2) by (simp add: c_str_def)
  also have "\<dots> = take k m" using assms(3) by (subst takeWhile_append2) auto
  finally show ?thesis .
qed

subsection \<open>The URC table\<close>

lemma find_urc_loop_only:
  assumes "\<forall>e\<in>set tbl. strstr T (prefix e) \<longrightarrow> e = it" and "\<And>n. strstr b n \<Longrightarrow> strstr T n"
  shows "find_urc_loop tbl b = None \<or> find_urc_loop tbl b = Some it"
  using assms(1)
proof (induction tbl)
  case Nil
  then show ?case by simp
next
  case (Cons e tbl)
  show ?case
  proof (cases "strstr b (prefix e)")
    case True
    then have "strstr T (prefix e)" by (rule assms(2))
    with Cons.prems have "e = it" by simp
    with True show ?thesis by simp
  next
    case False
    with Cons show ?thesis by simp
  qed
qed

lemma find_urc_loop_hit:
  assumes "it \<in> set tbl" and "strstr T (prefix it)"
    and "\<forall>e\<in>set tbl. strstr T (prefix e) \<longrightarrow> e = it"
  shows "find_urc_loop tbl T = Some it"
  using assms(1,3)
proof (induction tbl)
  case Nil
  then show ?case by simp
next
  case (Cons e tbl)
  show ?case
  proof (cases "strstr T (prefix e)")
    case True
    with Cons.prems have "e = it" by simp
    with True show ?thesis by simp
  next
    case False
    with assms(2) have "e \<noteq> it" by auto
    with Cons False show ?thesis by simp
  qed
qed

subsection \<open>One URC message\<close>

lemma urc_recv_byte_stores:
  assumes "urc_cnt at = k" and "Suc k < urc_bufsize (adap at)"
  shows "urc_recv_byte M at ch =
     (if strchr (SPEC_URC_END_MARKS M) ch \<or> ch = CHR 0x00
      then Inr (urc_end_marked
                  (at\<lparr>ticks := Suc (ticks at), urc_timer := clock at (ticks at),
                      urc_cnt := Suc k, urc_mem := (urc_mem at)[k := ch, Suc k := CHR 0x00]\<rparr>) ch)
      else Inr (at\<lparr>ticks := Suc (ticks at), urc_timer := clock at (ticks at),
                   urc_mem := (urc_mem at)[k := ch], urc_cnt := Suc k\<rparr>))"
  using assms
  by (simp add: urc_recv_byte_def urc_stored_def urc_buf_write_def at_get_ms_def)

lemma urc_end_marked_ordinary:
  assumes "ch \<noteq> CHR 0x0D" "ch \<noteq> CHR 0x0A" "ch \<noteq> CHR 0x00"
    and "urc_item a = None \<or> urc_item a = Some it"
    and "end_mark it = [CHR 0x0D, CHR 0x0A]"
    and "find_urc_item a (urc_mem a) (urc_cnt a) = None
         \<or> find_urc_item a (urc_mem a) (urc_cnt a) = Some it"
  shows "urc_end_marked a ch = a\<lparr>urc_item := None\<rparr> \<or> urc_end_marked a ch = a\<lparr>urc_item := Some it\<rparr>"
proof (cases "urc_item a")
  case (Some x)
  with assms(4) have x: "urc_item a = Some it" by simp
  then have "urc_end_marked a ch = a" using assms(1-3,5)
    by (simp add: urc_end_marked_def strchr_def)
  then show ?thesis using x by simp
next
  case None
  from assms(6) show ?thesis
  proof
    assume "find_urc_item a (urc_mem a) (urc_cnt a) = None"
    then have "urc_end_marked a ch = a" using None assms(1-3)
      by (simp add: urc_end_marked_def)
    then show ?thesis using None by simp
  next
    assume "find_urc_item a (urc_mem a) (urc_cnt a) = Some it"
    then have "urc_end_marked a ch = a\<lparr>urc_item := Some it\<rparr>" using None assms(1-3,5)
      by (simp add: urc_end_marked_def strchr_def)
    then show ?thesis by simp
  qed
qed

lemma creg_text_ordinary:
  assumes "k < 8"
  shows "creg_text ! k \<noteq> CHR 0x0D \<and> creg_text ! k \<noteq> CHR 0x0A \<and> creg_text ! k \<noteq> CHR 0x00"
proof -
  from assms have "k = 0 \<or> k = 1 \<or> k = 2 \<or> k = 3 \<or> k = 4 \<or> k = 5 \<or> k = 6 \<or> k = 7" by arith
  then show ?thesis by (auto simp: creg_text_def)
qed

lemma creg_text_props: "length creg_text = 9" "CHR 0x00 \<notin> set creg_text"
  "strstr creg_text ''+CREG:''"
  by (simp_all add: creg_text_def)

lemma take_Suc_update: "k < length m \<Longrightarrow> take (Suc k) (m[k := c]) = take k m @ [c]"
  by (simp add: take_Suc_conv_app_nth)

lemma idle_newline_step:
  assumes "urc_cnt a = 0" and "urc_item a = None" and "2 \<le> urc_bufsize (adap a)"
    and "CHR 0x0A \<in> set (SPEC_URC_END_MARKS M)"
  shows "\<exists>a'. urc_recv_byte M a (CHR 0x0A) = Inr a' \<and> urc_cnt a' = 0 \<and> urc_item a' = None
     \<and> trace a' = trace a"
proof -
  have "Suc 0 < urc_bufsize (adap a)" using assms(3) by simp
  from urc_recv_byte_stores[OF assms(1) this, of M "CHR 0x0A"] assms(2,4)
  show ?thesis
    by (simp add: strchr_def urc_end_marked_def find_urc_item_def)
qed

subsection \<open>The bounds of the receive buffers\<close>

text \<open>
  When a byte that ends a record arrives in the last slot of the URC buffer, the
  terminator is stored one past the buffer: the overflow test is made only for
  bytes that are not end marks.
\<close>

lemma urc_recv_byte_last_slot:
  assumes "Suc (urc_cnt at) = urc_bufsize (adap at)"
    and "strchr (SPEC_URC_END_MARKS M) ch \<or> ch = CHR 0x00"
  shows "urc_recv_byte M at ch = Inl (URC_OOB (urc_bufsize (adap at)))"
proof -
  have "urc_cnt at < urc_bufsize (adap at)" using assms(1) by simp
  then show ?thesis using assms
    by (simp add: urc_recv_byte_def urc_stored_def urc_buf_write_def at_get_ms_def)
qed

text \<open>
  C1 does not hold of the code. With a URC buffer of 4 bytes, three bytes and then
  a byte that ends a record make \<^verbatim>\<open>urc_recv_process\<close> store the terminator at index
  4: for a NUL byte whatever the end marks are, for a carriage return, and for a
  run of commas, on which the count is never reset.
\<close>

theorem urc_terminator_out_of_bounds:
  "urc_bufsize (adap small_at) = 4
   \<and> urc_recv_process M small_at (''abc'' @ [CHR 0x00]) = Inl (URC_OOB 4)
   \<and> urc_recv_process example_macros small_at (''abc'' @ [CHR 0x0D]) = Inl (URC_OOB 4)
   \<and> urc_recv_process example_macros small_at '',,,,'' = Inl (URC_OOB 4)"
proof -
  have 1: "urc_bufsize (adap small_at) = 4" by (simp add: small_at_def at_obj_init_def)
  have 2: "urc_recv_process M small_at (''abc'' @ [CHR 0x00]) = Inl (URC_OOB 4)"
    by (cases "CHR ''a'' \<in> set (SPEC_URC_END_MARKS M)";
        cases "CHR ''b'' \<in> set (SPEC_URC_END_MARKS M)";
        cases "CHR ''c'' \<in> set (SPEC_URC_END_MARKS M)")
       (simp_all add: small_at_def urc_eval example_defs)
  have 3: "urc_recv_process example_macros small_at (''abc'' @ [CHR 0x0D]) = Inl (URC_OOB 4)"
    by (simp add: small_at_def urc_eval example_defs)
  have 4: "urc_recv_process example_macros small_at '',,,,'' = Inl (URC_OOB 4)"
    by (simp add: small_at_def urc_eval example_defs)
  from 1 2 3 4 show ?thesis by (intro conjI)
qed

lemma memcpy_rcv_in_bounds:
  "off + length buf \<le> bufsize r \<Longrightarrow> \<exists>a. memcpy_rcv r at off buf = Inr a"
proof (induction buf arbitrary: at off)
  case Nil
  then show ?case by simp
next
  case (Cons c cs)
  then have "off < bufsize r" "Suc off + length cs \<le> bufsize r" by simp_all
  with Cons.IH[of "Suc off"] show ?case by (simp add: rcv_buf_write_def)
qed

text \<open>
  The matcher keeps inside the receive buffer when the chunk is shorter than the
  buffer: the reader's one-byte chunks with a buffer of at least two bytes.
\<close>

lemma resp_accumulate_in_bounds:
  assumes "length buf < bufsize r" and "bufsize r < 2 ^ 16" and "rcv_cnt at < 2 ^ 16"
  shows "\<exists>a. resp_accumulate r at buf = Inr a \<and> rcv_cnt a < bufsize r"
proof -
  define a1 where "a1 = (if (rcv_cnt at + length buf) mod 2 ^ 32 \<ge> bufsize r mod 2 ^ 16
                 then emit (Dbg_overflow (c_str (rcv_mem at))) (at\<lparr>rcv_cnt := 0\<rparr>)
                 else at)"
  have m: "bufsize r mod 2 ^ 16 = bufsize r"
    "(rcv_cnt at + length buf) mod 2 ^ 32 = rcv_cnt at + length buf"
    using assms by simp_all
  have b: "rcv_cnt a1 + length buf < bufsize r"
    unfolding a1_def m using assms(1) by (simp add: emit_def)
  then obtain a2 where c: "memcpy_rcv r a1 (rcv_cnt a1) buf = Inr a2"
    using memcpy_rcv_in_bounds[of "rcv_cnt a1" buf r a1] by auto
  from memcpy_rcv_Inr[OF c] have n: "rcv_cnt a2 = rcv_cnt a1" by simp
  have "resp_accumulate r at buf =
      rcv_buf_write r (a2\<lparr>rcv_cnt := rcv_cnt a2 + length buf\<rparr>) (rcv_cnt a2 + length buf) (CHR 0x00)"
    unfolding resp_accumulate_def Let_def a1_def[symmetric] c by simp
  then show ?thesis using b n by (simp add: rcv_buf_write_def)
qed

subsection \<open>The default response description\<close>

lemma memcpy_rcv_length:
  "memcpy_rcv r at off buf = Inr at' \<Longrightarrow> length (rcv_mem at') = length (rcv_mem at)"
proof (induction buf arbitrary: at off)
  case Nil
  then show ?case by simp
next
  case (Cons c cs)
  from Cons.prems obtain at1 where w: "rcv_buf_write r at off c = Inr at1"
    and m: "memcpy_rcv r at1 (off + 1) cs = Inr at'"
    by (auto split: sum.splits)
  from Cons.IH[OF m] rcv_buf_write_Inr[OF w] show ?case by simp
qed

lemma resp_accumulate_length:
  assumes "resp_accumulate r at buf = Inr at1"
  shows "length (rcv_mem at1) = length (rcv_mem at)"
proof -
  define a0 where "a0 = (if (rcv_cnt at + length buf) mod 2 ^ 32 \<ge> bufsize r mod 2 ^ 16
                 then emit (Dbg_overflow (c_str (rcv_mem at))) (at\<lparr>rcv_cnt := 0\<rparr>)
                 else at)"
  have l0: "length (rcv_mem a0) = length (rcv_mem at)" by (simp add: a0_def emit_def)
  from assms obtain a2 where m: "memcpy_rcv r a0 (rcv_cnt a0) buf = Inr a2"
    and w: "rcv_buf_write r (a2\<lparr>rcv_cnt := rcv_cnt a2 + length buf\<rparr>) (rcv_cnt a2 + length buf) (CHR 0x00) = Inr at1"
    unfolding resp_accumulate_def a0_def[symmetric] Let_def by (auto split: sum.splits)
  from memcpy_rcv_length[OF m] rcv_buf_write_Inr[OF w] l0 show ?thesis by simp
qed

lemma resp_check_timeout_cases:
  "resp_check_timeout r a = a\<lparr>ticks := Suc (ticks a)\<rparr>
   \<or> resp_check_timeout r a = resp_notification (a\<lparr>ticks := Suc (ticks a)\<rparr>) AT_RET_TIMEOUT
   \<or> resp_check_timeout r a = resp_notification (a\<lparr>ticks := Suc (ticks a)\<rparr>) AT_RET_ABORT"
  by (simp add: resp_check_timeout_def at_istimeout_def at_get_ms_def)

lemma answering_check_timeout:
  assumes "answering r a" and "resp a = Some r"
  shows "answering r (resp_check_timeout r a)"
  using resp_check_timeout_cases[of r a] assms
  by (auto simp: answering_def resp_notification_def emit_def)

lemma answering_resp_recv_process:
  assumes "resp_recv_process a buf = Inr a'" and "answering r a"
  shows "answering r a'"
proof (cases "resp a")
  case None
  with assms show ?thesis by (simp add: resp_recv_process_def)
next
  case (Some x)
  with assms(2) have x: "resp a = Some r" and rt: "ret a = AT_RET_TIMEOUT"
    by (auto simp: answering_def)
  show ?thesis
  proof (cases "buf = []")
    case True
    with assms(1) x have "a' = resp_check_timeout r a" by (simp add: resp_recv_process_def)
    with answering_check_timeout[OF assms(2) x] show ?thesis by simp
  next
    case False
    with assms(1) x obtain a1 where acc: "resp_accumulate r a buf = Inr a1"
      and e: "a' = (if strstr (c_str (rcv_mem a1)) (matcher r) then resp_notification a1 AT_RET_OK
                 else if strstr (c_str (rcv_mem a1)) ''ERROR'' then resp_notification a1 AT_RET_ERROR
                 else resp_check_timeout r a1)"
      by (auto simp: resp_recv_process_def split: sum.splits if_splits)
    from resp_accumulate_Inr[OF acc] resp_accumulate_length[OF acc] assms(2) x rt
    have a1: "answering r a1" "resp a1 = Some r"
      by (simp_all add: answering_def quiet_def)
    show ?thesis
    proof (cases "strstr (c_str (rcv_mem a1)) (matcher r)")
      case True
      with e a1 show ?thesis by (simp add: answering_def resp_notification_def emit_def)
    next
      case nm: False
      show ?thesis
      proof (cases "strstr (c_str (rcv_mem a1)) ''ERROR''")
        case True
        with e nm a1 show ?thesis by (simp add: answering_def resp_notification_def emit_def)
      next
        case False
        with e nm answering_check_timeout[OF a1] show ?thesis by simp
      qed
    qed
  qed
qed

lemma answering_urc: "urc_frame a a' \<Longrightarrow> answering r a \<Longrightarrow> answering r a'"
  by (simp add: answering_def urc_frame_def)

lemma answering_chunk:
  assumes "at_process_chunk M a buf = Inr a'" and "answering r a"
  shows "answering r a'"
proof -
  from assms(1) obtain a1 where u: "urc_recv_process M a buf = Inr a1"
    and p: "resp_recv_process a1 buf = Inr a'"
    by (auto simp: at_process_chunk_def split: sum.splits)
  from urc_recv_process_Inr[OF u] assms(2) have "answering r a1" by (blast intro: answering_urc)
  with p show ?thesis by (rule answering_resp_recv_process)
qed

lemma answering_loop:
  "at_process_loop M bs a = Inr a' \<Longrightarrow> answering r a \<Longrightarrow> answering r a'"
proof (induction bs arbitrary: a)
  case Nil
  have "answering r (a\<lparr>rx := []\<rparr>)" using Nil.prems(2) by (simp add: answering_def)
  with Nil.prems(1) show ?case by (auto intro: answering_chunk)
next
  case (Cons c cs)
  then obtain a1 where c: "at_process_chunk M (a\<lparr>rx := cs\<rparr>) [c] = Inr a1"
    and l: "at_process_loop M cs a1 = Inr a'"
    by (auto split: sum.splits)
  have "answering r (a\<lparr>rx := cs\<rparr>)" using Cons.prems(2) by (simp add: answering_def)
  from answering_chunk[OF c this] Cons.IH[OF l] show ?case by simp
qed

lemma answering_at_process:
  assumes "at_process M a = Inr a'" and "answering r a"
  shows "answering r a'"
proof (cases "recv_lock a")
  case False
  with assms(1) have "a' = a\<lparr>recv_lock := False\<rparr>" by (simp add: at_process_def at_sem_wait_def)
  with assms(2) show ?thesis by (simp add: answering_def)
next
  case True
  with assms(1) obtain a1 where l: "at_process_loop M (rx a) (a\<lparr>recv_lock := False\<rparr>) = Inr a1"
    and e: "a' = a1\<lparr>recv_lock := at_sem_post (recv_lock a1)\<rparr>"
    by (auto simp: at_process_def at_sem_wait_def split: sum.splits)
  have "answering r (a\<lparr>recv_lock := False\<rparr>)" using assms(2) by (simp add: answering_def)
  from answering_loop[OF l this] e show ?thesis by (simp add: answering_def)
qed

lemma answering_run_reader:
  "run_reader M bg a = Inr a' \<Longrightarrow> answering r a \<Longrightarrow> answering r a'"
proof (induction bg arbitrary: a)
  case Nil
  then show ?case by simp
next
  case (Cons b bg)
  then obtain a1 where p: "at_process M (a\<lparr>rx := rx a @ b\<rparr>) = Inr a1"
    and l: "run_reader M bg a1 = Inr a'"
    by (auto split: sum.splits)
  have "answering r (a\<lparr>rx := rx a @ b\<rparr>)" using Cons.prems(2) by (simp add: answering_def)
  from answering_at_process[OF p this] Cons.IH[OF l] show ?case by simp
qed

lemma wait_resp_answer:
  assumes "wait_resp M a r bg = Inr (res, a')"
  shows "length (rcv_mem a') = length (recvbuf r)
     \<and> (res = AT_RET_OK \<longrightarrow> strstr (c_str (rcv_mem a')) (matcher r))"
proof -
  from assms obtain a1 where rr: "run_reader M bg (wait_resp_arm a r) = Inr a1"
    and e: "a' = (emit (Dbg_resp (c_str (rcv_mem a1)))
                     (a1\<lparr>completed := snd (at_sem_wait (completed a1) (timeout r))\<rparr>))\<lparr>resp := None\<rparr>"
    and re: "res = ret a1"
    by (auto simp: wait_resp_def Let_def emit_def split: sum.splits prod.splits)
  have "answering r (wait_resp_arm a r)"
    by (simp add: answering_def wait_resp_arm_def at_get_ms_def)
  from answering_run_reader[OF rr this] have "answering r a1" .
  then show ?thesis unfolding e re by (auto simp: answering_def emit_def)
qed

text \<open>
  C8: \<^verbatim>\<open>at_do_cmd\<close> with a null response description runs the command with the default
  description: success token \<^verbatim>\<open>OK\<close>, the 64 bytes of its own local array as receive
  buffer, a time-out of 5000 ms. It does what it does for this description given
  explicitly. With the send lock obtained it waits for the URC session to be idle,
  writes the command line and runs \<^verbatim>\<open>wait_resp\<close> with the default description, which
  arms the matcher with it on the local buffer; when it returns, the receive buffer
  has 64 bytes, and the result is success only if the buffer contains \<^verbatim>\<open>OK\<close>.
\<close>

theorem at_do_cmd_default_resp:
  "at_do_cmd M at None cmd bg = at_do_cmd M at (Some (default_resp at)) cmd bg
   \<and> matcher (default_resp at) = ''OK''
   \<and> recvbuf (default_resp at) = defbuf at \<and> length (defbuf at) = 64
   \<and> bufsize (default_resp at) = 64
   \<and> timeout (default_resp at) = 5000
   \<and> (send_lock at \<longrightarrow>
        at_do_cmd M at None cmd bg =
          (case wait_urc_idle M bg (at\<lparr>send_lock := False, busy := True\<rparr>) of
             Inl e \<Rightarrow> Inl e
           | Inr (a1, bg1) \<Rightarrow>
               (case wait_resp M (put_line a1 cmd) (default_resp at) bg1 of
                  Inl e \<Rightarrow> Inl e
                | Inr (r, a2) \<Rightarrow> Inr (r, a2\<lparr>send_lock := True, busy := False\<rparr>))))
   \<and> resp (wait_resp_arm a (default_resp at)) = Some (default_resp at)
   \<and> rcv_mem (wait_resp_arm a (default_resp at)) = defbuf at
   \<and> rcv_cnt (wait_resp_arm a (default_resp at)) = 0
   \<and> (send_lock at \<longrightarrow> at_do_cmd M at None cmd bg = Inr (res, at') \<longrightarrow>
        length (rcv_mem at') = 64
        \<and> (res = AT_RET_OK \<longrightarrow> strstr (c_str (rcv_mem at')) ''OK''))"
proof -
  have 1: "at_do_cmd M at None cmd bg = at_do_cmd M at (Some (default_resp at)) cmd bg"
    by (simp add: at_do_cmd_def)
  have 2: "matcher (default_resp at) = ''OK''" "recvbuf (default_resp at) = defbuf at"
    "length (defbuf at) = 64" "bufsize (default_resp at) = 64" "timeout (default_resp at) = 5000"
    by (simp_all add: default_resp_def defbuf_def)
  have 3: "send_lock at \<longrightarrow>
        at_do_cmd M at None cmd bg =
          (case wait_urc_idle M bg (at\<lparr>send_lock := False, busy := True\<rparr>) of
             Inl e \<Rightarrow> Inl e
           | Inr (a1, bg1) \<Rightarrow>
               (case wait_resp M (put_line a1 cmd) (default_resp at) bg1 of
                  Inl e \<Rightarrow> Inl e
                | Inr (r, a2) \<Rightarrow> Inr (r, a2\<lparr>send_lock := True, busy := False\<rparr>)))"
    unfolding at_do_cmd_def at_sem_wait_def at_sem_post_def by simp
  have 4: "resp (wait_resp_arm a (default_resp at)) = Some (default_resp at)"
    "rcv_mem (wait_resp_arm a (default_resp at)) = defbuf at"
    "rcv_cnt (wait_resp_arm a (default_resp at)) = 0"
    by (simp_all add: wait_resp_arm_def at_get_ms_def default_resp_def)
  have 5: "send_lock at \<longrightarrow> at_do_cmd M at None cmd bg = Inr (res, at') \<longrightarrow>
        length (rcv_mem at') = 64
        \<and> (res = AT_RET_OK \<longrightarrow> strstr (c_str (rcv_mem at')) ''OK'')"
  proof (intro impI)
    assume l: "send_lock at" and d: "at_do_cmd M at None cmd bg = Inr (res, at')"
    from d 3 l obtain a1 bg1 a2 where
      w: "wait_resp M (put_line a1 cmd) (default_resp at) bg1 = Inr (res, a2)"
      and e: "at' = a2\<lparr>send_lock := True, busy := False\<rparr>"
      by (auto split: sum.splits prod.splits)
    from wait_resp_answer[OF w] e 2
    show "length (rcv_mem at') = 64
        \<and> (res = AT_RET_OK \<longrightarrow> strstr (c_str (rcv_mem at')) ''OK'')"
      by simp
  qed
  from 1 2 3 4 5 show ?thesis by (intro conjI)
qed

theorem at_do_cmd_default_resp_witness:
  "send_lock example_at
   \<and> at_do_cmd example_macros example_at None ''AT'' [''OK'']
      = Inr (AT_RET_OK, snd (projr (at_do_cmd example_macros example_at None ''AT'' [''OK''])))
   \<and> length (rcv_mem (snd (projr (at_do_cmd example_macros example_at None ''AT'' [''OK''])))) = 64
   \<and> strstr (c_str (rcv_mem (snd (projr (at_do_cmd example_macros example_at None ''AT'' [''OK''])))))
        ''OK''"
proof -
  have l: "send_lock example_at" by (simp add: example_defs)
  have "\<exists>a. at_do_cmd example_macros example_at None ''AT'' [''OK''] = Inr (AT_RET_OK, a)"
    by (simp add: at_do_cmd_def default_resp_def defbuf_def put_line_def put_string_def
        reader_eval example_defs upt_rec)
  then have h: "at_do_cmd example_macros example_at None ''AT'' [''OK'']
      = Inr (AT_RET_OK, snd (projr (at_do_cmd example_macros example_at None ''AT'' [''OK''])))"
    by auto
  from at_do_cmd_default_resp[of example_macros example_at "''AT''" "[''OK'']" example_at AT_RET_OK
      "snd (projr (at_do_cmd example_macros example_at None ''AT'' [''OK'']))"]
  have "send_lock example_at \<longrightarrow>
      at_do_cmd example_macros example_at None ''AT'' [''OK'']
        = Inr (AT_RET_OK, snd (projr (at_do_cmd example_macros example_at None ''AT'' [''OK''])))
      \<longrightarrow> length (rcv_mem (snd (projr (at_do_cmd example_macros example_at None ''AT'' [''OK''])))) = 64
        \<and> (AT_RET_OK = AT_RET_OK \<longrightarrow>
           strstr (c_str (rcv_mem (snd (projr (at_do_cmd example_macros example_at None ''AT'' [''OK''])))))
             ''OK'')"
    by - (elim conjE, assumption)
  with l h show ?thesis by blast
qed

subsection \<open>The dispatcher runs before the matcher\<close>

lemma at_process_loop_offers:
  "at_process_loop M bs a =
     (case offer_bytes M bs a of
        Inl e \<Rightarrow> Inl e
      | Inr a1 \<Rightarrow> at_process_chunk M (a1\<lparr>rx := []\<rparr>) [])"
proof (induction bs arbitrary: a)
  case Nil
  show ?case by simp
next
  case (Cons c cs)
  show ?case
  proof (cases "urc_recv_process M (a\<lparr>rx := cs\<rparr>) [c]")
    case (Inl e)
    then show ?thesis by (simp add: at_process_chunk_def)
  next
    case u: (Inr a1)
    show ?thesis
    proof (cases "resp_recv_process a1 [c]")
      case (Inl e)
      with u show ?thesis by (simp add: at_process_chunk_def)
    next
      case (Inr a2)
      with u Cons.IH[of a2] show ?thesis by (simp add: at_process_chunk_def)
    qed
  qed
qed

text \<open>
  C7: every byte obtained from the transport is offered to the URC dispatcher
  before the response matcher. When \<^verbatim>\<open>at_process\<close> obtains the receive lock it offers
  the pending bytes one by one, each first to \<^verbatim>\<open>urc_recv_process\<close> and then to
  \<^verbatim>\<open>resp_recv_process\<close>, polls both once more with the read that returns nothing,
  and releases the lock; without the lock it reads nothing. Whenever the matcher
  runs on the state the dispatcher left, what the dispatcher does to the outside
  comes first and is of the dispatcher's kind only. The read of a work session
  returns the bytes it took from the transport after \<^verbatim>\<open>urc_recv_process\<close> has run on
  exactly these bytes, and does not involve the matcher.
\<close>

theorem urc_before_matcher:
  "(recv_lock at \<longrightarrow>
      at_process M at =
        (case offer_bytes M (rx at) (at\<lparr>recv_lock := False\<rparr>) of
           Inl e \<Rightarrow> Inl e
         | Inr a1 \<Rightarrow>
             (case urc_recv_process M (a1\<lparr>rx := []\<rparr>) [] of
                Inl e \<Rightarrow> Inl e
              | Inr a2 \<Rightarrow>
                  (case resp_recv_process a2 [] of
                     Inl e \<Rightarrow> Inl e
                   | Inr a3 \<Rightarrow> Inr (a3\<lparr>recv_lock := True\<rparr>)))))
   \<and> (\<not> recv_lock bat \<longrightarrow> at_process M bat = Inr bat)
   \<and> (urc_recv_process M cat buf = Inr cat1 \<longrightarrow> resp_recv_process cat1 buf = Inr cat2 \<longrightarrow>
        trace_ext is_urc_event cat cat1 \<and> trace_ext is_resp_event cat1 cat2
        \<and> urc_frame cat cat1 \<and> resp_frame cat1 cat2)
   \<and> (at_work_read M wat len = Inr (bs, wat') \<longrightarrow>
      bs = take len (rx wat)
      \<and> urc_recv_process M (wat\<lparr>rx := drop len (rx wat)\<rparr>) bs = Inr wat'
      \<and> resp wat' = resp wat \<and> rcv_cnt wat' = rcv_cnt wat \<and> rcv_mem wat' = rcv_mem wat
      \<and> posts wat' = posts wat)"
proof -
  have p1: "recv_lock at \<longrightarrow>
      at_process M at =
        (case offer_bytes M (rx at) (at\<lparr>recv_lock := False\<rparr>) of
           Inl e \<Rightarrow> Inl e
         | Inr a1 \<Rightarrow>
             (case urc_recv_process M (a1\<lparr>rx := []\<rparr>) [] of
                Inl e \<Rightarrow> Inl e
              | Inr a2 \<Rightarrow>
                  (case resp_recv_process a2 [] of
                     Inl e \<Rightarrow> Inl e
                   | Inr a3 \<Rightarrow> Inr (a3\<lparr>recv_lock := True\<rparr>))))"
  proof
    assume l: "recv_lock at"
    show "at_process M at =
        (case offer_bytes M (rx at) (at\<lparr>recv_lock := False\<rparr>) of
           Inl e \<Rightarrow> Inl e
         | Inr a1 \<Rightarrow>
             (case urc_recv_process M (a1\<lparr>rx := []\<rparr>) [] of
                Inl e \<Rightarrow> Inl e
              | Inr a2 \<Rightarrow>
                  (case resp_recv_process a2 [] of
                     Inl e \<Rightarrow> Inl e
                   | Inr a3 \<Rightarrow> Inr (a3\<lparr>recv_lock := True\<rparr>))))"
      using l unfolding at_process_def at_sem_wait_def at_sem_post_def at_process_loop_offers
        at_process_chunk_def
      by (simp split: sum.splits)
  qed
  have p2: "\<not> recv_lock bat \<longrightarrow> at_process M bat = Inr bat"
    by (simp add: at_process_def at_sem_wait_def)
  have p3: "urc_recv_process M cat buf = Inr cat1 \<longrightarrow> resp_recv_process cat1 buf = Inr cat2 \<longrightarrow>
        trace_ext is_urc_event cat cat1 \<and> trace_ext is_resp_event cat1 cat2
        \<and> urc_frame cat cat1 \<and> resp_frame cat1 cat2"
    using urc_recv_process_Inr[of M cat buf cat1] resp_recv_process_Inr[of cat1 buf cat2]
    by blast
  have p4: "at_work_read M wat len = Inr (bs, wat') \<longrightarrow>
      bs = take len (rx wat)
      \<and> urc_recv_process M (wat\<lparr>rx := drop len (rx wat)\<rparr>) bs = Inr wat'
      \<and> resp wat' = resp wat \<and> rcv_cnt wat' = rcv_cnt wat \<and> rcv_mem wat' = rcv_mem wat
      \<and> posts wat' = posts wat"
  proof
    assume w: "at_work_read M wat len = Inr (bs, wat')"
    then have b: "bs = take len (rx wat)"
      and u: "urc_recv_process M (wat\<lparr>rx := drop len (rx wat)\<rparr>) bs = Inr wat'"
      by (auto simp: at_work_read_def adap_read_def split: sum.splits)
    from urc_recv_process_Inr[OF u]
    have f: "urc_frame (wat\<lparr>rx := drop len (rx wat)\<rparr>) wat'"
      and t: "trace_ext is_urc_event (wat\<lparr>rx := drop len (rx wat)\<rparr>) wat'" by auto
    from trace_ext_urc_posts[OF t] have "posts wat' = posts wat" by (simp add: posts_def)
    with b u f show "bs = take len (rx wat)
        \<and> urc_recv_process M (wat\<lparr>rx := drop len (rx wat)\<rparr>) bs = Inr wat'
        \<and> resp wat' = resp wat \<and> rcv_cnt wat' = rcv_cnt wat \<and> rcv_mem wat' = rcv_mem wat
        \<and> posts wat' = posts wat"
      by (simp add: urc_frame_def)
  qed
  from p1 p2 p3 p4 show ?thesis by (intro conjI)
qed

text \<open>
  In the witness one carriage return ends the URC and completes the response: the
  handler is called before the completion signal is posted.
\<close>

theorem urc_before_matcher_witness:
  "recv_lock (both_at\<lparr>rx := [CHR 0x0D]\<rparr>)
   \<and> map_sum id trace (at_process example_macros (both_at\<lparr>rx := [CHR 0x0D]\<rparr>))
      = Inr [Dbg_urc (''+CREG: 1'' @ [CHR 0x0D]), Urc_handler 7 (''+CREG: 1'' @ [CHR 0x0D]) 16 9,
             Post_completed]
   \<and> \<not> recv_lock reader_busy_at
   \<and> at_process example_macros reader_busy_at = Inr reader_busy_at
   \<and> urc_recv_process example_macros both_at [CHR 0x0D]
      = Inr (projr (urc_recv_process example_macros both_at [CHR 0x0D]))
   \<and> resp_recv_process (projr (urc_recv_process example_macros both_at [CHR 0x0D])) [CHR 0x0D]
      = Inr (projr (at_process_chunk example_macros both_at [CHR 0x0D]))
   \<and> trace_ext is_urc_event both_at (projr (urc_recv_process example_macros both_at [CHR 0x0D]))
   \<and> trace_ext is_resp_event (projr (urc_recv_process example_macros both_at [CHR 0x0D]))
        (projr (at_process_chunk example_macros both_at [CHR 0x0D]))
   \<and> at_work_read example_macros (example_at\<lparr>rx := ''OK''\<rparr>) 1
      = Inr (''O'', snd (projr (at_work_read example_macros (example_at\<lparr>rx := ''OK''\<rparr>) 1)))
   \<and> rx (snd (projr (at_work_read example_macros (example_at\<lparr>rx := ''OK''\<rparr>) 1))) = ''K''
   \<and> urc_cnt (snd (projr (at_work_read example_macros (example_at\<lparr>rx := ''OK''\<rparr>) 1))) = 1"
proof -
  note t = urc_before_matcher[of "both_at\<lparr>rx := [CHR 0x0D]\<rparr>" example_macros reader_busy_at
      both_at "[CHR 0x0D]" "projr (urc_recv_process example_macros both_at [CHR 0x0D])"
      "projr (at_process_chunk example_macros both_at [CHR 0x0D])"
      "example_at\<lparr>rx := ''OK''\<rparr>" 1 "''O''"
      "snd (projr (at_work_read example_macros (example_at\<lparr>rx := ''OK''\<rparr>) 1))"]
  have l: "recv_lock (both_at\<lparr>rx := [CHR 0x0D]\<rparr>)"
    by (simp add: both_at_def wait_resp_arm_def at_get_ms_def example_defs)
  have o: "map_sum id trace
        (case offer_bytes example_macros (rx (both_at\<lparr>rx := [CHR 0x0D]\<rparr>))
                (both_at\<lparr>rx := [CHR 0x0D], recv_lock := False\<rparr>) of
           Inl e \<Rightarrow> Inl e
         | Inr a1 \<Rightarrow>
             (case urc_recv_process example_macros (a1\<lparr>rx := []\<rparr>) [] of
                Inl e \<Rightarrow> Inl e
              | Inr a2 \<Rightarrow>
                  (case resp_recv_process a2 [] of
                     Inl e \<Rightarrow> Inl e
                   | Inr a3 \<Rightarrow> Inr (a3\<lparr>recv_lock := True\<rparr>))))
      = Inr [Dbg_urc (''+CREG: 1'' @ [CHR 0x0D]), Urc_handler 7 (''+CREG: 1'' @ [CHR 0x0D]) 16 9,
             Post_completed]"
    by (simp add: both_at_def reader_eval example_defs)
  from t l have "at_process example_macros (both_at\<lparr>rx := [CHR 0x0D]\<rparr>) =
        (case offer_bytes example_macros (rx (both_at\<lparr>rx := [CHR 0x0D]\<rparr>))
                (both_at\<lparr>rx := [CHR 0x0D], recv_lock := False\<rparr>) of
           Inl e \<Rightarrow> Inl e
         | Inr a1 \<Rightarrow>
             (case urc_recv_process example_macros (a1\<lparr>rx := []\<rparr>) [] of
                Inl e \<Rightarrow> Inl e
              | Inr a2 \<Rightarrow>
                  (case resp_recv_process a2 [] of
                     Inl e \<Rightarrow> Inl e
                   | Inr a3 \<Rightarrow> Inr (a3\<lparr>recv_lock := True\<rparr>))))"
    by blast
  with o have w1: "map_sum id trace (at_process example_macros (both_at\<lparr>rx := [CHR 0x0D]\<rparr>))
      = Inr [Dbg_urc (''+CREG: 1'' @ [CHR 0x0D]), Urc_handler 7 (''+CREG: 1'' @ [CHR 0x0D]) 16 9,
             Post_completed]" by simp
  have b: "\<not> recv_lock reader_busy_at" by (simp add: reader_busy_at_def)
  with t have w2: "at_process example_macros reader_busy_at = Inr reader_busy_at" by blast
  have "\<exists>a. urc_recv_process example_macros both_at [CHR 0x0D] = Inr a"
    by (simp add: both_at_def reader_eval example_defs)
  then have h1: "urc_recv_process example_macros both_at [CHR 0x0D]
      = Inr (projr (urc_recv_process example_macros both_at [CHR 0x0D]))" by auto
  have "\<exists>a. at_process_chunk example_macros both_at [CHR 0x0D] = Inr a"
    by (simp add: both_at_def reader_eval example_defs)
  then have "at_process_chunk example_macros both_at [CHR 0x0D]
      = Inr (projr (at_process_chunk example_macros both_at [CHR 0x0D]))" by auto
  then have h2: "resp_recv_process (projr (urc_recv_process example_macros both_at [CHR 0x0D])) [CHR 0x0D]
      = Inr (projr (at_process_chunk example_macros both_at [CHR 0x0D]))"
    using h1 by (simp add: at_process_chunk_def split: sum.splits)
  from t h1 h2 have w3:
    "trace_ext is_urc_event both_at (projr (urc_recv_process example_macros both_at [CHR 0x0D]))"
    "trace_ext is_resp_event (projr (urc_recv_process example_macros both_at [CHR 0x0D]))
        (projr (at_process_chunk example_macros both_at [CHR 0x0D]))"
    by blast+
  have "\<exists>a. at_work_read example_macros (example_at\<lparr>rx := ''OK''\<rparr>) 1 = Inr (''O'', a)"
    by (simp add: at_work_read_def adap_read_def reader_eval example_defs)
  then have h3: "at_work_read example_macros (example_at\<lparr>rx := ''OK''\<rparr>) 1
      = Inr (''O'', snd (projr (at_work_read example_macros (example_at\<lparr>rx := ''OK''\<rparr>) 1)))"
    by auto
  have t3: "rx (snd (projr (at_work_read example_macros (example_at\<lparr>rx := ''OK''\<rparr>) 1))) = ''K''"
    "urc_cnt (snd (projr (at_work_read example_macros (example_at\<lparr>rx := ''OK''\<rparr>) 1))) = 1"
    by (simp_all add: at_work_read_def adap_read_def reader_eval example_defs)
  from l w1 b w2 h1 h2 w3 h3 t3 show ?thesis by (intro conjI)
qed

lemma accumulate_step:
  assumes inv: "accumulating at0 it T k a" and k: "k < length T"
    and sz: "Suc k < urc_bufsize (adap at0)" and nul: "CHR 0x00 \<notin> set T"
    and ord: "(T ! k \<noteq> CHR 0x0D \<and> T ! k \<noteq> CHR 0x0A) \<or> \<not> strchr (SPEC_URC_END_MARKS M) (T ! k)"
    and em: "end_mark it = [CHR 0x0D, CHR 0x0A]"
    and early: "find_urc_loop (urc_tbl (adap at0)) (take (Suc k) T) = None
                \<or> find_urc_loop (urc_tbl (adap at0)) (take (Suc k) T) = Some it"
  shows "\<exists>a'. urc_recv_byte M a (T ! k) = Inr a' \<and> accumulating at0 it T (Suc k) a'"
proof -
  define ch where "ch = T ! k"
  from inv have c: "urc_cnt a = k" and tk: "take k (urc_mem a) = take k T"
    and len: "length (urc_mem a) = urc_bufsize (adap a)" and ad: "adap a = adap at0"
    and tr: "trace a = trace at0" and item: "urc_item a = None \<or> urc_item a = Some it"
    by (simp_all add: accumulating_def)
  have kb: "Suc k < urc_bufsize (adap a)" "k < length (urc_mem a)" "Suc k < length (urc_mem a)"
    using sz ad len by simp_all
  have n0: "ch \<noteq> CHR 0x00" using nul nth_mem[OF k] by (auto simp: ch_def)
  have t1: "take (Suc k) ((urc_mem a)[k := ch]) = take (Suc k) T"
    using kb(2) tk k by (simp add: take_Suc_update ch_def take_Suc_conv_app_nth)
  have t2: "take (Suc k) ((urc_mem a)[k := ch, Suc k := CHR 0x00]) = take (Suc k) T"
    using t1 by simp
  show ?thesis
  proof (cases "strchr (SPEC_URC_END_MARKS M) ch")
    case False
    then have "urc_recv_byte M a ch = Inr (a\<lparr>ticks := Suc (ticks a), urc_timer := clock a (ticks a),
                   urc_mem := (urc_mem a)[k := ch], urc_cnt := Suc k\<rparr>)"
      using urc_recv_byte_stores[OF c kb(1), of M ch] n0 by simp
    moreover have "accumulating at0 it T (Suc k) (a\<lparr>ticks := Suc (ticks a), urc_timer := clock a (ticks a),
                   urc_mem := (urc_mem a)[k := ch], urc_cnt := Suc k\<rparr>)"
      using t1 len ad tr item by (simp add: accumulating_def)
    ultimately show ?thesis unfolding ch_def by blast
  next
    case True
    with ord have o: "ch \<noteq> CHR 0x0D" "ch \<noteq> CHR 0x0A" by (simp_all add: ch_def)
    define a5 where "a5 = a\<lparr>ticks := Suc (ticks a), urc_timer := clock a (ticks a),
                      urc_cnt := Suc k, urc_mem := (urc_mem a)[k := ch, Suc k := CHR 0x00]\<rparr>"
    have r: "urc_recv_byte M a ch = Inr (urc_end_marked a5 ch)"
      using True urc_recv_byte_stores[OF c kb(1), of M ch] by (simp add: a5_def)
    have acc5: "accumulating at0 it T (Suc k) a5"
      using t2 len ad tr item by (simp add: accumulating_def a5_def)
    have "CHR 0x00 \<notin> set (take (Suc k) T)"
      using nul by (auto dest: in_set_takeD)
    then have cs: "c_str (urc_mem a5) = take (Suc k) T"
      using c_str_take[of "Suc k" "urc_mem a5"] kb(3) t2 by (simp add: a5_def)
    have "find_urc_loop (urc_tbl (adap a5)) (c_str (urc_mem a5)) = None
          \<or> find_urc_loop (urc_tbl (adap a5)) (c_str (urc_mem a5)) = Some it"
      unfolding cs using early ad by (simp add: a5_def)
    then have f: "find_urc_item a5 (urc_mem a5) (urc_cnt a5) = None
         \<or> find_urc_item a5 (urc_mem a5) (urc_cnt a5) = Some it"
      by (auto simp: find_urc_item_def)
    have i5: "urc_item a5 = None \<or> urc_item a5 = Some it" using item by (simp add: a5_def)
    from urc_end_marked_ordinary[OF o n0 i5 em f] acc5
    have "accumulating at0 it T (Suc k) (urc_end_marked a5 ch)"
      by (auto simp: accumulating_def)
    with r show ?thesis unfolding ch_def by blast
  qed
qed

lemma accumulate_loop:
  assumes n: "n < length T" and sz: "n < urc_bufsize (adap at0)" and nul: "CHR 0x00 \<notin> set T"
    and ord: "\<And>j. j < n \<Longrightarrow> (T ! j \<noteq> CHR 0x0D \<and> T ! j \<noteq> CHR 0x0A)
                  \<or> \<not> strchr (SPEC_URC_END_MARKS M) (T ! j)"
    and em: "end_mark it = [CHR 0x0D, CHR 0x0A]"
    and early: "\<And>j. j \<le> n \<Longrightarrow> find_urc_loop (urc_tbl (adap at0)) (take j T) = None
                  \<or> find_urc_loop (urc_tbl (adap at0)) (take j T) = Some it"
  shows "k \<le> n \<Longrightarrow> accumulating at0 it T (n - k) a \<Longrightarrow>
     \<exists>a'. urc_recv_loop M a (take k (drop (n - k) T) @ rest) =
            urc_recv_loop M a' rest \<and> accumulating at0 it T n a'"
proof (induction k arbitrary: a)
  case 0
  then show ?case by auto
next
  case (Suc k)
  have j: "n - Suc k < n" using Suc.prems(1) by simp
  then have jl: "n - Suc k < length T" and js: "Suc (n - Suc k) < urc_bufsize (adap at0)"
    using n sz by simp_all
  have je: "Suc (n - Suc k) \<le> n" using j by simp
  from accumulate_step[OF Suc.prems(2) jl js nul ord[OF j] em early[OF je]]
  obtain a1 where s: "urc_recv_byte M a (T ! (n - Suc k)) = Inr a1"
    and i: "accumulating at0 it T (Suc (n - Suc k)) a1" by blast
  have e: "Suc (n - Suc k) = n - k" using Suc.prems(1) by simp
  have d: "take (Suc k) (drop (n - Suc k) T)
       = T ! (n - Suc k) # take k (drop (n - k) T)"
    using jl e by (simp add: Cons_nth_drop_Suc[symmetric])
  from Suc.IH[of a1] i e Suc.prems(1)
  obtain a' where "urc_recv_loop M a1 (take k (drop (n - k) T) @ rest) = urc_recv_loop M a' rest"
    and "accumulating at0 it T n a'" by auto
  then show ?case using s d by auto
qed

lemma dispatch_step:
  assumes inv: "accumulating at0 it T n a" and T: "length T = Suc n" and n1: "1 \<le> n"
    and sz: "Suc n < urc_bufsize (adap at0)" and nul: "CHR 0x00 \<notin> set T"
    and mark: "T ! n \<in> set (SPEC_URC_END_MARKS M)" and endm: "T ! n \<in> set (end_mark it)"
    and first: "find_urc_loop (urc_tbl (adap at0)) T = Some it"
  shows "\<exists>a'. urc_recv_byte M a (T ! n) = Inr a' \<and> urc_cnt a' = 0 \<and> urc_item a' = None
     \<and> adap a' = adap at0
     \<and> trace a' = trace at0 @ [Dbg_urc T,
          Urc_handler (handler it) T (urc_bufsize (adap at0)) (Suc n)]"
proof -
  define d where "d = T ! n"
  from inv have c: "urc_cnt a = n" and tk: "take n (urc_mem a) = take n T"
    and len: "length (urc_mem a) = urc_bufsize (adap a)" and ad: "adap a = adap at0"
    and tr: "trace a = trace at0" and item: "urc_item a = None \<or> urc_item a = Some it"
    by (simp_all add: accumulating_def)
  have kb: "Suc n < urc_bufsize (adap a)" "n < length (urc_mem a)" "Suc n < length (urc_mem a)"
    using sz ad len by simp_all
  define a5 where "a5 = a\<lparr>ticks := Suc (ticks a), urc_timer := clock a (ticks a),
                      urc_cnt := Suc n, urc_mem := (urc_mem a)[n := d, Suc n := CHR 0x00]\<rparr>"
  have r: "urc_recv_byte M a d = Inr (urc_end_marked a5 d)"
    using mark urc_recv_byte_stores[OF c kb(1), of M d] by (simp add: a5_def strchr_def d_def)
  have "take (Suc n) ((urc_mem a)[n := d]) = take n (urc_mem a) @ [d]"
    using kb(2) by (rule take_Suc_update)
  also have "\<dots> = take n T @ [T ! n]" using tk by (simp add: d_def)
  also have "\<dots> = take (Suc n) T" using T by (intro take_Suc_conv_app_nth[symmetric]) simp
  also have "\<dots> = T" using T by simp
  finally have "take (Suc n) ((urc_mem a)[n := d]) = T" .
  then have t2: "take (Suc n) (urc_mem a5) = T" by (simp add: a5_def)
  have cs: "c_str (urc_mem a5) = T"
    using c_str_take[of "Suc n" "urc_mem a5"] kb(3) t2 nul by (simp add: a5_def)
  have hit: "find_urc_item a5 (urc_mem a5) (urc_cnt a5) = Some it"
    unfolding find_urc_item_def cs using first ad n1 by (simp add: a5_def)
  define a6 where "a6 = a5\<lparr>urc_item := Some it\<rparr>"
  have sc: "strchr (end_mark it) d" using endm by (simp add: strchr_def d_def)
  have "urc_end_marked a5 d =
      (urc_handler_entry a6 it (urc_mem a6) (urc_cnt a6))\<lparr>urc_cnt := 0, urc_item := None\<rparr>"
  proof (cases "urc_item a5")
    case None
    then show ?thesis using hit sc
      by (simp add: urc_end_marked_def a6_def)
  next
    case (Some x)
    with item have "urc_item a5 = Some it" by (simp add: a5_def)
    then have "a6 = a5" by (simp add: a6_def)
    then show ?thesis using \<open>urc_item a5 = Some it\<close> sc
      by (simp add: urc_end_marked_def)
  qed
  then have "urc_end_marked a5 d =
      a6\<lparr>trace := trace a6 @ [Dbg_urc T,
              Urc_handler (handler it) T (urc_bufsize (adap a6)) (Suc n)],
         urc_cnt := 0, urc_item := None\<rparr>"
    using cs by (simp add: urc_handler_entry_def emit_def a6_def a5_def)
  with r ad tr show ?thesis unfolding d_def[symmetric] by (simp add: a6_def a5_def)
qed

lemma creg_seen_props:
  "CHR 0x00 \<notin> set (creg_seen M)"
  "CHR 0x0D \<in> set (SPEC_URC_END_MARKS M) \<Longrightarrow> creg_seen M = creg_text"
  "CHR 0x0D \<notin> set (SPEC_URC_END_MARKS M) \<Longrightarrow> creg_seen M = creg_text @ [CHR 0x0A]"
  by (simp_all add: creg_seen_def creg_text_def)

text \<open>
  C6, as the code has it. The entry \<open>it\<close> has the prefix \<^verbatim>\<open>+CREG:\<close> and the end marks
  carriage return and line feed. The text the handler is to see is the message up
  to its first line terminator that is an end mark of the dispatcher; the line feed
  is one. The table lookup finds \<open>it\<close> in that text and no other entry in a shorter
  beginning of it (the first match wins), and the URC buffer holds the text and
  its terminator. Then, from an idle session, \<^verbatim>\<open>urc_recv_process\<close> on the bytes
  \<^verbatim>\<open>+CREG: 1\<close>, carriage return, line feed calls the handler of \<open>it\<close> exactly once,
  with the text accumulated, and leaves the session idle: count zero, no entry
  matched.
\<close>

theorem urc_creg_dispatched_once:
  assumes idle: "urc_cnt at = 0" "urc_item at = None"
    and buf: "length (urc_mem at) = urc_bufsize (adap at)"
      "length (creg_seen M) < urc_bufsize (adap at)"
    and lf: "CHR 0x0A \<in> set (SPEC_URC_END_MARKS M)"
    and it: "prefix it = ''+CREG:''" "end_mark it = [CHR 0x0D, CHR 0x0A]"
    and first: "find_urc_loop (urc_tbl (adap at)) (creg_seen M) = Some it"
    and early: "\<forall>k<length (creg_seen M).
        find_urc_loop (urc_tbl (adap at)) (take k (creg_seen M)) = None
        \<or> find_urc_loop (urc_tbl (adap at)) (take k (creg_seen M)) = Some it"
  shows "\<exists>at'. urc_recv_process M at (''+CREG: 1'' @ [CHR 0x0D, CHR 0x0A]) = Inr at'
     \<and> trace at' = trace at @ [Dbg_urc (creg_seen M),
          Urc_handler (handler it) (creg_seen M) (urc_bufsize (adap at)) (length (creg_seen M))]
     \<and> urc_cnt at' = 0 \<and> urc_item at' = None"
proof -
  have p: "urc_recv_process M at (''+CREG: 1'' @ [CHR 0x0D, CHR 0x0A])
      = urc_recv_loop M at (''+CREG: 1'' @ [CHR 0x0D, CHR 0x0A])"
    using idle(1) by (simp add: urc_recv_process_def urc_recv_timeout_def)
  show ?thesis
  proof (cases "CHR 0x0D \<in> set (SPEC_URC_END_MARKS M)")
    case True
    then have T: "creg_seen M = creg_text" by (rule creg_seen_props)
    have sz: "9 < urc_bufsize (adap at)" using buf(2) by (simp add: T creg_text_props)
    have ea: "\<And>j. j \<le> 8 \<Longrightarrow> find_urc_loop (urc_tbl (adap at)) (take j creg_text) = None
                  \<or> find_urc_loop (urc_tbl (adap at)) (take j creg_text) = Some it"
      using early by (simp add: T creg_text_props)
    have a0: "accumulating at it creg_text (8 - 8) at"
      using idle buf(1) by (simp add: accumulating_def)
    have t: "take 8 (drop (8 - 8) creg_text) = ''+CREG: 1''" by (simp add: creg_text_def)
    have "\<exists>a'. urc_recv_loop M at (take 8 (drop (8 - 8) creg_text) @ [CHR 0x0D, CHR 0x0A]) =
            urc_recv_loop M a' [CHR 0x0D, CHR 0x0A] \<and> accumulating at it creg_text 8 a'"
    proof (rule accumulate_loop[where n=8 and T=creg_text])
      show "8 < length creg_text" by (simp add: creg_text_props)
      show "8 < urc_bufsize (adap at)" using sz by simp
      show "CHR 0x00 \<notin> set creg_text" by (rule creg_text_props)
      show "\<And>j. j < 8 \<Longrightarrow> (creg_text ! j \<noteq> CHR 0x0D \<and> creg_text ! j \<noteq> CHR 0x0A)
                  \<or> \<not> strchr (SPEC_URC_END_MARKS M) (creg_text ! j)"
        using creg_text_ordinary by blast
      show "end_mark it = [CHR 0x0D, CHR 0x0A]" by (rule it(2))
      show "\<And>j. j \<le> 8 \<Longrightarrow> find_urc_loop (urc_tbl (adap at)) (take j creg_text) = None
                  \<or> find_urc_loop (urc_tbl (adap at)) (take j creg_text) = Some it"
        by (rule ea)
      show "(8::nat) \<le> 8" by simp
      show "accumulating at it creg_text (8 - 8) at" by (rule a0)
    qed
    then obtain a8 where l8: "urc_recv_loop M at (''+CREG: 1'' @ [CHR 0x0D, CHR 0x0A])
        = urc_recv_loop M a8 [CHR 0x0D, CHR 0x0A]"
      and i8: "accumulating at it creg_text 8 a8" unfolding t by auto
    have d8: "creg_text ! 8 = CHR 0x0D" by (simp add: creg_text_def)
    have "\<exists>a'. urc_recv_byte M a8 (creg_text ! 8) = Inr a' \<and> urc_cnt a' = 0 \<and> urc_item a' = None
       \<and> adap a' = adap at
       \<and> trace a' = trace at @ [Dbg_urc creg_text,
            Urc_handler (handler it) creg_text (urc_bufsize (adap at)) (Suc 8)]"
    proof (rule dispatch_step[OF i8])
      show "length creg_text = Suc 8" by (simp add: creg_text_props)
      show "1 \<le> (8::nat)" by simp
      show "Suc 8 < urc_bufsize (adap at)" using sz by simp
      show "CHR 0x00 \<notin> set creg_text" by (rule creg_text_props)
      show "creg_text ! 8 \<in> set (SPEC_URC_END_MARKS M)" using True d8 by simp
      show "creg_text ! 8 \<in> set (end_mark it)" using d8 it(2) by simp
      show "find_urc_loop (urc_tbl (adap at)) creg_text = Some it" using first T by simp
    qed
    then obtain a9 where s9: "urc_recv_byte M a8 (CHR 0x0D) = Inr a9"
      and c9: "urc_cnt a9 = 0" "urc_item a9 = None" "adap a9 = adap at"
      and t9: "trace a9 = trace at @ [Dbg_urc creg_text,
            Urc_handler (handler it) creg_text (urc_bufsize (adap at)) 9]"
      unfolding d8 by auto
    have "2 \<le> urc_bufsize (adap a9)" using c9(3) sz by simp
    from idle_newline_step[OF c9(1,2) this lf]
    obtain a10 where s10: "urc_recv_byte M a9 (CHR 0x0A) = Inr a10"
      and c10: "urc_cnt a10 = 0" "urc_item a10 = None" "trace a10 = trace a9"
      by blast
    have "urc_recv_loop M a8 [CHR 0x0D, CHR 0x0A] = Inr a10" using s9 s10 by simp
    with p l8 t9 c10 show ?thesis by (simp add: T creg_text_props)
  next
    case False
    then have T: "creg_seen M = creg_text @ [CHR 0x0A]" by (rule creg_seen_props)
    define U where "U = creg_text @ [CHR 0x0A]"
    have lU: "length U = 10" by (simp add: U_def creg_text_props)
    have nU: "CHR 0x00 \<notin> set U" using creg_seen_props(1)[of M] T by (simp add: U_def)
    have sz: "10 < urc_bufsize (adap at)" using buf(2) by (simp add: T creg_text_props)
    have ea: "\<And>j. j \<le> 9 \<Longrightarrow> find_urc_loop (urc_tbl (adap at)) (take j U) = None
                  \<or> find_urc_loop (urc_tbl (adap at)) (take j U) = Some it"
      using early unfolding T U_def[symmetric] lU by simp
    have a0: "accumulating at it U (9 - 9) at"
      using idle buf(1) by (simp add: accumulating_def)
    have t: "take 9 (drop (9 - 9) U) = ''+CREG: 1'' @ [CHR 0x0D]" by (simp add: U_def creg_text_def)
    have ord: "\<And>j. j < 9 \<Longrightarrow> (U ! j \<noteq> CHR 0x0D \<and> U ! j \<noteq> CHR 0x0A)
                  \<or> \<not> strchr (SPEC_URC_END_MARKS M) (U ! j)"
    proof -
      fix j :: nat assume j: "j < 9"
      show "(U ! j \<noteq> CHR 0x0D \<and> U ! j \<noteq> CHR 0x0A) \<or> \<not> strchr (SPEC_URC_END_MARKS M) (U ! j)"
      proof (cases "j < 8")
        case True
        then have "U ! j = creg_text ! j" by (simp add: U_def nth_append creg_text_props)
        with creg_text_ordinary[OF True] show ?thesis by simp
      next
        case False
        with j have "j = 8" by simp
        then have "U ! j = CHR 0x0D" by (simp add: U_def creg_text_def)
        with \<open>CHR 0x0D \<notin> set (SPEC_URC_END_MARKS M)\<close> show ?thesis by (simp add: strchr_def)
      qed
    qed
    have "\<exists>a'. urc_recv_loop M at (take 9 (drop (9 - 9) U) @ [CHR 0x0A]) =
            urc_recv_loop M a' [CHR 0x0A] \<and> accumulating at it U 9 a'"
    proof (rule accumulate_loop[where n=9 and T=U])
      show "9 < length U" by (simp add: lU)
      show "9 < urc_bufsize (adap at)" using sz by simp
      show "CHR 0x00 \<notin> set U" by (rule nU)
      show "\<And>j. j < 9 \<Longrightarrow> (U ! j \<noteq> CHR 0x0D \<and> U ! j \<noteq> CHR 0x0A)
                  \<or> \<not> strchr (SPEC_URC_END_MARKS M) (U ! j)"
        by (rule ord)
      show "end_mark it = [CHR 0x0D, CHR 0x0A]" by (rule it(2))
      show "\<And>j. j \<le> 9 \<Longrightarrow> find_urc_loop (urc_tbl (adap at)) (take j U) = None
                  \<or> find_urc_loop (urc_tbl (adap at)) (take j U) = Some it"
        by (rule ea)
      show "(9::nat) \<le> 9" by simp
      show "accumulating at it U (9 - 9) at" by (rule a0)
    qed
    then obtain a9 where l9: "urc_recv_loop M at (''+CREG: 1'' @ [CHR 0x0D, CHR 0x0A])
        = urc_recv_loop M a9 [CHR 0x0A]"
      and i9: "accumulating at it U 9 a9" unfolding t by auto
    have d9: "U ! 9 = CHR 0x0A" by (simp add: U_def creg_text_def)
    have "\<exists>a'. urc_recv_byte M a9 (U ! 9) = Inr a' \<and> urc_cnt a' = 0 \<and> urc_item a' = None
       \<and> adap a' = adap at
       \<and> trace a' = trace at @ [Dbg_urc U,
            Urc_handler (handler it) U (urc_bufsize (adap at)) (Suc 9)]"
    proof (rule dispatch_step[OF i9])
      show "length U = Suc 9" by (simp add: lU)
      show "1 \<le> (9::nat)" by simp
      show "Suc 9 < urc_bufsize (adap at)" using sz by simp
      show "CHR 0x00 \<notin> set U" by (rule nU)
      show "U ! 9 \<in> set (SPEC_URC_END_MARKS M)" using lf d9 by simp
      show "U ! 9 \<in> set (end_mark it)" using d9 it(2) by simp
      show "find_urc_loop (urc_tbl (adap at)) U = Some it" using first T by (simp add: U_def)
    qed
    then obtain a10 where s10: "urc_recv_byte M a9 (CHR 0x0A) = Inr a10"
      and c10: "urc_cnt a10 = 0" "urc_item a10 = None"
      and t10: "trace a10 = trace at @ [Dbg_urc U,
            Urc_handler (handler it) U (urc_bufsize (adap at)) 10]"
      unfolding d9 by auto
    have "urc_recv_loop M a9 [CHR 0x0A] = Inr a10" using s10 by simp
    with p l9 t10 c10 show ?thesis unfolding T U_def[symmetric] by (simp add: lU)
  qed
qed

theorem urc_creg_dispatched_once_witness:
  "urc_cnt example_at = 0 \<and> urc_item example_at = None
   \<and> length (urc_mem example_at) = urc_bufsize (adap example_at)
   \<and> length (creg_seen example_macros) < urc_bufsize (adap example_at)
   \<and> CHR 0x0A \<in> set (SPEC_URC_END_MARKS example_macros)
   \<and> prefix creg_item = ''+CREG:'' \<and> end_mark creg_item = [CHR 0x0D, CHR 0x0A]
   \<and> find_urc_loop (urc_tbl (adap example_at)) (creg_seen example_macros) = Some creg_item
   \<and> (\<exists>at'. urc_recv_process example_macros example_at (''+CREG: 1'' @ [CHR 0x0D, CHR 0x0A]) = Inr at'
        \<and> trace at' = [Dbg_urc (''+CREG: 1'' @ [CHR 0x0D]),
                        Urc_handler 7 (''+CREG: 1'' @ [CHR 0x0D]) 16 9]
        \<and> urc_cnt at' = 0 \<and> urc_item at' = None)"
proof -
  have s: "creg_seen example_macros = ''+CREG: 1'' @ [CHR 0x0D]"
    by (simp add: creg_seen_def creg_text_def example_macros_def)
  have h: "urc_cnt example_at = 0" "urc_item example_at = None"
    "length (urc_mem example_at) = urc_bufsize (adap example_at)"
    "length (creg_seen example_macros) < urc_bufsize (adap example_at)"
    "CHR 0x0A \<in> set (SPEC_URC_END_MARKS example_macros)"
    "prefix creg_item = ''+CREG:''" "end_mark creg_item = [CHR 0x0D, CHR 0x0A]"
    "find_urc_loop (urc_tbl (adap example_at)) (creg_seen example_macros) = Some creg_item"
    unfolding s by (simp_all add: example_defs)
  have e: "\<forall>k<length (creg_seen example_macros).
        find_urc_loop (urc_tbl (adap example_at)) (take k (creg_seen example_macros)) = None
        \<or> find_urc_loop (urc_tbl (adap example_at)) (take k (creg_seen example_macros))
            = Some creg_item"
    by (simp add: example_at_def at_obj_init_def example_adap_def)
  have v: "handler creg_item = 7" "urc_bufsize (adap example_at) = 16" "trace example_at = []"
    "length (''+CREG: 1'' @ [CHR 0x0D]) = 9"
    by (simp_all add: example_defs)
  from urc_creg_dispatched_once[OF h e]
  have "\<exists>at'. urc_recv_process example_macros example_at (''+CREG: 1'' @ [CHR 0x0D, CHR 0x0A]) = Inr at'
        \<and> trace at' = [Dbg_urc (''+CREG: 1'' @ [CHR 0x0D]),
                        Urc_handler 7 (''+CREG: 1'' @ [CHR 0x0D]) 16 9]
        \<and> urc_cnt at' = 0 \<and> urc_item at' = None"
    unfolding s v by simp
  with h show ?thesis by (intro conjI)
qed

text \<open>
  C6 as stated fails. With an entry of prefix \<^verbatim>\<open>REG\<close> before the \<^verbatim>\<open>+CREG:\<close> entry, the
  first match wins and the handler of that entry (8) is called, not the one of the
  \<^verbatim>\<open>+CREG:\<close> entry (7). With a URC buffer of 5 bytes the overflow reset discards
  the beginning of the message and no handler is called. With end marks that lack
  the line feed, the line feed stays in the buffer and the session is not idle.
\<close>

theorem urc_creg_not_dispatched:
  "creg_item \<in> set (urc_tbl (adap shadow_at))
   \<and> map_sum id trace
        (urc_recv_process example_macros shadow_at (''+CREG: 1'' @ [CHR 0x0D, CHR 0x0A]))
      = Inr [Dbg_urc (''+CREG: 1'' @ [CHR 0x0D]), Urc_handler 8 (''+CREG: 1'' @ [CHR 0x0D]) 16 9]
   \<and> creg_item \<in> set (urc_tbl (adap five_at))
   \<and> map_sum id trace
        (urc_recv_process example_macros five_at (''+CREG: 1'' @ [CHR 0x0D, CHR 0x0A]))
      = Inr [Dbg_unrecognized ('': 1'' @ [CHR 0x0D])]
   \<and> creg_item \<in> set (urc_tbl (adap example_at))
   \<and> map_sum id urc_cnt
        (urc_recv_process cr_macros example_at (''+CREG: 1'' @ [CHR 0x0D, CHR 0x0A]))
      = Inr 1"
proof -
  have 1: "creg_item \<in> set (urc_tbl (adap shadow_at))" "creg_item \<in> set (urc_tbl (adap five_at))"
    "creg_item \<in> set (urc_tbl (adap example_at))"
    by (simp_all add: shadow_at_def five_at_def example_at_def example_adap_def at_obj_init_def)
  have 2: "map_sum id trace
        (urc_recv_process example_macros shadow_at (''+CREG: 1'' @ [CHR 0x0D, CHR 0x0A]))
      = Inr [Dbg_urc (''+CREG: 1'' @ [CHR 0x0D]), Urc_handler 8 (''+CREG: 1'' @ [CHR 0x0D]) 16 9]"
    by (simp add: shadow_at_def urc_eval example_defs)
  have 3: "map_sum id trace
        (urc_recv_process example_macros five_at (''+CREG: 1'' @ [CHR 0x0D, CHR 0x0A]))
      = Inr [Dbg_unrecognized ('': 1'' @ [CHR 0x0D])]"
    by (simp add: five_at_def urc_eval example_defs)
  have 4: "map_sum id urc_cnt
        (urc_recv_process cr_macros example_at (''+CREG: 1'' @ [CHR 0x0D, CHR 0x0A]))
      = Inr 1"
    by (simp add: cr_macros_def urc_eval example_defs)
  from 1 2 3 4 show ?thesis by (intro conjI)
qed

end
